theory Spec2Isabelle
  imports Complex_Main "HOL-Library.Char_ord" "HOL-Library.List_Lexorder" "HOL-Library.Sublist"
begin

section \<open>Graph aggregation: \<open>src/graph_builder.py\<close>\<close>

text \<open>
  A triplet is \<open>(subject, predicate, object)\<close>. The loop of \<open>build_graph_from_triplets\<close>
  tests \<open>s is None or o is None\<close>, so subject and object are optional strings
  (\<open>None\<close> is Python's \<open>None\<close>); the empty string is \<open>Some []\<close>.
\<close>

type_synonym triplet = "string option \<times> string \<times> string option"

text \<open>
  The attribute dictionaries that \<open>add_node\<close> and \<open>add_edge\<close> store. The \<open>preds\<close> entry
  of an edge is a Python \<open>set\<close> while the loop runs and a \<open>list\<close> on return, hence the
  type parameter.
\<close>

record node_attrs =
  label :: string
  type :: string

record 'p edge_attrs =
  elabel :: string
  weight :: int
  preds :: 'p

text \<open>
  A \<open>networkx.DiGraph\<close>: nodes keyed by their string, at most one edge per ordered pair of
  nodes. Both tables are association lists in order of first insertion (Python
  dictionaries keep insertion order). The edge table lists the edges in the order in which
  they were first added; the order in which \<open>G.edges\<close> walks them (grouped by source
  node) plays no part in what follows.
\<close>

record 'p digraph =
  nodes :: "(string \<times> node_attrs) list"
  edges :: "((string \<times> string) \<times> 'p edge_attrs) list"

definition DiGraph :: "'p digraph" where
  "DiGraph = \<lparr>nodes = [], edges = []\<rparr>"

definition has_node :: "'p digraph \<Rightarrow> string \<Rightarrow> bool" where
  "has_node G n = (map_of (nodes G) n \<noteq> None)"

definition add_node :: "'p digraph \<Rightarrow> string \<Rightarrow> node_attrs \<Rightarrow> 'p digraph" where
  "add_node G n a = G\<lparr>nodes := nodes G @ [(n, a)]\<rparr>"

definition has_edge :: "'p digraph \<Rightarrow> string \<Rightarrow> string \<Rightarrow> bool" where
  "has_edge G u v = (map_of (edges G) (u, v) \<noteq> None)"

definition add_edge :: "'p digraph \<Rightarrow> string \<Rightarrow> string \<Rightarrow> 'p edge_attrs \<Rightarrow> 'p digraph" where
  "add_edge G u v a = G\<lparr>edges := edges G @ [((u, v), a)]\<rparr>"

text \<open>
  The branch \<open>G[s][o]["weight"] += 1; G[s][o]["preds"].add(p)\<close>: the attributes of the
  existing edge are updated in place.
\<close>

definition bump_edge :: "string \<Rightarrow> string set edge_attrs \<Rightarrow> string set edge_attrs" where
  "bump_edge p a = a\<lparr>weight := weight a + 1, preds := insert p (preds a)\<rparr>"

definition update_edge ::
  "string set digraph \<Rightarrow> string \<Rightarrow> string \<Rightarrow> string \<Rightarrow> string set digraph" where
  "update_edge G u v p =
     G\<lparr>edges := map (\<lambda>(k, a). if k = (u, v) then (k, bump_edge p a) else (k, a)) (edges G)\<rparr>"

text \<open>One iteration of the \<open>for s, p, o in triplets\<close> loop.\<close>

definition add_triplet :: "string set digraph \<Rightarrow> triplet \<Rightarrow> string set digraph" where
  "add_triplet G t =
     (case t of (s_opt, p, o_opt) \<Rightarrow>
        (case s_opt of None \<Rightarrow> G | Some s \<Rightarrow>
        (case o_opt of None \<Rightarrow> G | Some ob \<Rightarrow>
           (let G1 = (if \<not> has_node G s
                      then add_node G s \<lparr>label = s, type = ''entity''\<rparr> else G);
                G2 = (if \<not> has_node G1 ob
                      then add_node G1 ob \<lparr>label = ob, type = ''entity''\<rparr> else G1)
            in if has_edge G2 s ob then update_edge G2 s ob p
               else add_edge G2 s ob \<lparr>elabel = p, weight = 1, preds = {p}\<rparr>))))"

definition aggregate :: "triplet list \<Rightarrow> string set digraph" where
  "aggregate triplets = foldl add_triplet DiGraph triplets"

text \<open>
  The closing loop \<open>data["preds"] = list(data.get("preds", []))\<close>. The order in which
  \<open>list\<close> enumerates a Python \<open>set\<close> of strings is the set's iteration order; it depends
  on the strings' hashes, which CPython salts per process. The enumeration is therefore a
  parameter \<open>to_list\<close> of the model. What Python guarantees of it is \<open>py_list_of_set\<close>:
  every element of the set is listed exactly once.
\<close>

definition py_list_of_set :: "(string set \<Rightarrow> string list) \<Rightarrow> bool" where
  "py_list_of_set to_list = (\<forall>S. finite S \<longrightarrow> set (to_list S) = S \<and> distinct (to_list S))"

definition preds_to_list ::
  "(string set \<Rightarrow> string list) \<Rightarrow> string set edge_attrs \<Rightarrow> string list edge_attrs" where
  "preds_to_list to_list a = \<lparr>elabel = elabel a, weight = weight a, preds = to_list (preds a)\<rparr>"

definition build_graph_from_triplets ::
  "(string set \<Rightarrow> string list) \<Rightarrow> triplet list \<Rightarrow> string list digraph" where
  "build_graph_from_triplets to_list triplets =
     (let G = aggregate triplets
      in \<lparr>nodes = nodes G, edges = map (\<lambda>(k, a). (k, preds_to_list to_list a)) (edges G)\<rparr>)"

definition number_of_nodes :: "'p digraph \<Rightarrow> nat" where
  "number_of_nodes G = length (nodes G)"

definition number_of_edges :: "'p digraph \<Rightarrow> nat" where
  "number_of_edges G = length (edges G)"

text \<open>Two enumeration orders, both admissible for \<open>list(set)\<close>.\<close>

definition ascending :: "string set \<Rightarrow> string list" where
  "ascending S = sorted_list_of_set S"

definition descending :: "string set \<Rightarrow> string list" where
  "descending S = rev (sorted_list_of_set S)"

text \<open>Vocabulary of the statements about the aggregator.\<close>

definition not_skipped :: "triplet \<Rightarrow> bool" where
  "not_skipped t = (case t of (s, p, ob) \<Rightarrow> s \<noteq> None \<and> ob \<noteq> None)"

definition pair_count :: "triplet list \<Rightarrow> string \<Rightarrow> string \<Rightarrow> nat" where
  "pair_count triplets u v =
     length (filter (\<lambda>(s, p, ob). s = Some u \<and> ob = Some v) triplets)"

definition edge_facts ::
  "string list digraph \<Rightarrow> ((string \<times> string) \<times> string \<times> int \<times> string set) list" where
  "edge_facts G = map (\<lambda>(k, a). (k, elabel a, weight a, set (preds a))) (edges G)"

definition example_triplets :: "triplet list" where
  "example_triplets =
     [(Some ''A'', ''works_at'', Some ''B''),
      (Some ''A'', ''works_at'', Some ''B''),
      (Some ''A'', ''founded'', Some ''B'')]"

definition counted :: "triplet list \<Rightarrow> string set digraph \<Rightarrow> bool" where
  "counted ts G =
     ((\<forall>u v a. ((u, v), a) \<in> set (edges G) \<longrightarrow>
         weight a = int (pair_count ts u v) \<and> finite (preds a)) \<and>
      (\<forall>u v. \<not> has_edge G u v \<longrightarrow> pair_count ts u v = 0))"


section \<open>Entity deduplication: \<open>src/embeddings.py\<close>\<close>

text \<open>
  An embedding is a row of the array that the sentence encoder returns. NumPy computes
  in floating point; the model computes in the reals, so it says what the arithmetic of
  the source means, not how it rounds. A Python \<open>str\<close> is a list of characters, one
  \<open>char\<close> per code point, so \<open>length\<close> is Python's \<open>len\<close>.
\<close>

type_synonym vec = "real list"

text \<open>\<open>np.linalg.norm(embs, axis=1, keepdims=True)\<close>: the Euclidean norm of every row.\<close>

definition l2_norm :: "vec \<Rightarrow> real" where
  "l2_norm v = sqrt (\<Sum>x\<leftarrow>v. x * x)"

definition row_norms :: "vec list \<Rightarrow> real list" where
  "row_norms embs = map l2_norm embs"

text \<open>\<open>norms[norms == 0] = 1e-9\<close>\<close>

definition clamp_zero_norms :: "real list \<Rightarrow> real list" where
  "clamp_zero_norms norms = map (\<lambda>r. if r = 0 then 1 / 10 ^ 9 else r) norms"

text \<open>\<open>embs / norms\<close>: every row is divided, entry by entry, by the norm of its row.\<close>

definition divide_rows :: "vec list \<Rightarrow> real list \<Rightarrow> vec list" where
  "divide_rows embs norms = map2 (\<lambda>v r. map (\<lambda>x. x / r) v) embs norms"

definition l2_normalize :: "vec list \<Rightarrow> vec list" where
  "l2_normalize embs =
     (let norms = row_norms embs;
          norms = clamp_zero_norms norms
      in divide_rows embs norms)"

text \<open>\<open>np.dot\<close> of two rows.\<close>

definition dot :: "vec \<Rightarrow> vec \<Rightarrow> real" where
  "dot u v = (\<Sum>(x, y)\<leftarrow>zip u v. x * y)"

text \<open>
  The body of \<open>for j in range(i+1, n)\<close>. The state is the cluster under construction
  and the set \<open>visited\<close>.
\<close>

definition scan_step ::
  "vec list \<Rightarrow> real \<Rightarrow> nat \<Rightarrow> nat list \<times> nat set \<Rightarrow> nat \<Rightarrow> nat list \<times> nat set" where
  "scan_step embs_norm threshold i st j =
     (case st of (cluster, visited) \<Rightarrow>
        if j \<in> visited then st
        else (let cos = dot (embs_norm ! i) (embs_norm ! j)
              in if cos \<ge> threshold then (cluster @ [j], insert j visited) else st))"

text \<open>
  The body of \<open>for i in range(n)\<close>. The state is \<open>visited\<close> and the list \<open>clusters\<close>.
  Both loops only read rows \<open>i, j < n = len(embs_norm)\<close>.
\<close>

definition cluster_step ::
  "vec list \<Rightarrow> real \<Rightarrow> nat set \<times> nat list list \<Rightarrow> nat \<Rightarrow> nat set \<times> nat list list" where
  "cluster_step embs_norm threshold st i =
     (case st of (visited, clusters) \<Rightarrow>
        if i \<in> visited then st
        else (case foldl (scan_step embs_norm threshold i) ([i], insert i visited)
                     [i + 1 ..< length embs_norm] of
                (cluster, visited') \<Rightarrow> (visited', clusters @ [cluster])))"

definition greedy_clusters :: "vec list \<Rightarrow> real \<Rightarrow> nat list list" where
  "greedy_clusters embs_norm threshold =
     snd (foldl (cluster_step embs_norm threshold) ({}, []) [0 ..< length embs_norm])"

text \<open>
  \<open>entity_texts[i]\<close> for \<open>i \<ge> 0\<close> raises \<open>IndexError\<close> out of range, and \<open>max\<close> of an
  empty list raises \<open>ValueError\<close>; an exception is the value \<open>None\<close>. \<open>max(xs, key=len)\<close>
  keeps the first of the longest strings: a later string replaces the best so far only
  when it is strictly longer.
\<close>

definition py_index :: "'a list \<Rightarrow> nat \<Rightarrow> 'a option" where
  "py_index xs i = (if i < length xs then Some (xs ! i) else None)"

fun max_key_len :: "string list \<Rightarrow> string option" where
  "max_key_len [] = None"
| "max_key_len (x # xs) =
     Some (foldl (\<lambda>best y. if length best < length y then y else best) x xs)"

definition representative :: "string list \<Rightarrow> nat list \<Rightarrow> string option" where
  "representative entity_texts c =
     (case those (map (py_index entity_texts) c) of
        None \<Rightarrow> None
      | Some members \<Rightarrow> max_key_len members)"

definition representatives :: "string list \<Rightarrow> nat list list \<Rightarrow> string list option" where
  "representatives entity_texts clusters = those (map (representative entity_texts) clusters)"

text \<open>
  \<open>embed_texts\<close> hands the whole list to the encoder in one call. The encoder is a
  parameter: it returns one row per text, or fails (\<open>None\<close>, the exception travels up
  through \<open>deduplicate_entities\<close>). The last argument and the second result are the log
  of the batches the encoder has been called with.
\<close>

type_synonym encoder = "string list \<Rightarrow> vec list option"

definition deduplicate_entities ::
  "encoder \<Rightarrow> string list \<Rightarrow> real \<Rightarrow> string list list
     \<Rightarrow> string list option \<times> string list list" where
  "deduplicate_entities encode entity_texts threshold calls =
     (if entity_texts = [] then (Some [], calls)
      else (case encode entity_texts of
              None \<Rightarrow> (None, calls @ [entity_texts])
            | Some embs \<Rightarrow>
                (let embs_norm = l2_normalize embs;
                     clusters = greedy_clusters embs_norm threshold
                 in (representatives entity_texts clusters, calls @ [entity_texts]))))"

text \<open>
  A deterministic encoder: the row of a text depends on the text alone.
\<close>

definition batch_encoder :: "(string \<Rightarrow> vec) \<Rightarrow> encoder" where
  "batch_encoder embedding texts = Some (map embedding texts)"

text \<open>The cosine that the inner loop compares with the threshold, on two raw rows.\<close>

definition normalize_row :: "vec \<Rightarrow> vec" where
  "normalize_row v = map (\<lambda>x. x / (if l2_norm v = 0 then 1 / 10 ^ 9 else l2_norm v)) v"

definition cosine :: "vec \<Rightarrow> vec \<Rightarrow> real" where
  "cosine u v = dot (normalize_row u) (normalize_row v)"

text \<open>
  The clustering as the specification words it: the first mention that is still
  unassigned seeds a cluster; of the later unassigned mentions, those similar to the seed
  join it; the others stay unassigned, in order.
\<close>

fun spec_clusters :: "(nat \<Rightarrow> nat \<Rightarrow> bool) \<Rightarrow> nat list \<Rightarrow> nat list list" where
  "spec_clusters sim [] = []"
| "spec_clusters sim (i # rest) =
     (i # filter (sim i) rest) # spec_clusters sim (filter (\<lambda>j. \<not> sim i j) rest)"

text \<open>Three mentions on which similarity to the seed is not transitive.\<close>

definition embed_abc :: "string \<Rightarrow> vec" where
  "embed_abc s =
     (if s = ''a'' then [1, 0] else if s = ''bb'' then [3 / 5, 4 / 5] else [0, 1])"


text \<open>An encoder with an all-zero row, for the mention \<open>zero\<close>.\<close>

definition embed_zero :: "string \<Rightarrow> vec" where
  "embed_zero s = (if s = ''zero'' then [0, 0] else [3, 4])"

text \<open>Four mentions that \<open>embed_abc\<close> maps to the same row; two of them tie for the longest.\<close>

definition example_mentions :: "string list" where
  "example_mentions = [''Bob'', ''Robert'', ''Bobby'', ''Robbie'']"

text \<open>
  \<open>first_longest texts c m\<close>: among the members of the cluster \<open>c\<close>, the mention at
  index \<open>m\<close> is a longest one, and no member before it is as long.
\<close>

definition first_longest :: "string list \<Rightarrow> nat list \<Rightarrow> nat \<Rightarrow> bool" where
  "first_longest texts c m =
     (m \<in> set c \<and>
      (\<forall>i\<in>set c. length (texts ! i) \<le> length (texts ! m)) \<and>
      (\<forall>i\<in>set c. length (texts ! i) = length (texts ! m) \<longrightarrow> m \<le> i))"


section \<open>Normalisation of triplets: \<open>normalize\<close> in \<open>app.py\<close>\<close>

text \<open>
  \<open>str.lower\<close>, character by character. A \<open>char\<close> holds the code points 0 to 255; of
  these Python lowers A to Z (65 to 90) and the capital letters 192 to 222 of Latin-1
  except the multiplication sign 215, each to the code point 32 higher, and leaves every
  other one as it is. \<open>a in b\<close> on strings is \<open>sublist a b\<close>: \<open>a\<close> occurs in \<open>b\<close> as a
  contiguous block.
\<close>

definition lower_char :: "char \<Rightarrow> char" where
  "lower_char c =
     (let n = (of_char c :: nat)
      in if (65 \<le> n \<and> n \<le> 90) \<or> (192 \<le> n \<and> n \<le> 222 \<and> n \<noteq> 215)
         then char_of (n + 32) else c)"

definition lower :: "string \<Rightarrow> string" where
  "lower s = map lower_char s"

definition overlaps :: "string \<Rightarrow> string \<Rightarrow> bool" where
  "overlaps e r = (sublist (lower e) (lower r) \<or> sublist (lower r) (lower e))"

text \<open>
  The loop \<open>for r in reps\<close> with its early \<open>return r\<close>, and \<open>normalize\<close> itself, here
  \<open>normalize_entity\<close> with the list \<open>reps\<close> of the enclosing scope as its first argument.
\<close>

fun first_overlap :: "string list \<Rightarrow> string \<Rightarrow> string" where
  "first_overlap [] e = e"
| "first_overlap (r # rs) e = (if overlaps e r then r else first_overlap rs e)"

definition normalize_entity :: "string list \<Rightarrow> string \<Rightarrow> string" where
  "normalize_entity reps e = (if e = [] then e else first_overlap reps e)"

text \<open>
  The policy as the specification words it: the first representative, in list order,
  that contains the mention or is contained in it, letter case ignored; the mention itself
  when there is none.
\<close>

definition spec_normalize :: "string list \<Rightarrow> string \<Rightarrow> string" where
  "spec_normalize reps e = (case find (overlaps e) reps of None \<Rightarrow> e | Some r \<Rightarrow> r)"

text \<open>
  The only call of \<open>normalize\<close>:
  \<open>[(normalize(s), p, normalize(o)) for (s, p, o) in triplets if s and o]\<close>.
  A subject or object passes \<open>if s and o\<close> when it is neither \<open>None\<close> nor the empty
  string, so \<open>normalize\<close> is only ever applied to a non-empty string.
\<close>

definition truthy :: "string option \<Rightarrow> bool" where
  "truthy s = (case s of None \<Rightarrow> False | Some x \<Rightarrow> x \<noteq> [])"

definition normalized_triplets :: "string list \<Rightarrow> triplet list \<Rightarrow> triplet list" where
  "normalized_triplets reps triplets =
     map (\<lambda>(s, p, ob). (map_option (normalize_entity reps) s, p,
                        map_option (normalize_entity reps) ob))
       (filter (\<lambda>(s, p, ob). truthy s \<and> truthy ob) triplets)"


section \<open>Properties of the aggregator\<close>

subsection \<open>The loop, one triplet at a time\<close>

lemma aggregate_snoc: "aggregate (ts @ [t]) = add_triplet (aggregate ts) t"
  by (simp add: aggregate_def)

lemma aggregate_Nil: "aggregate [] = DiGraph"
  by (simp add: aggregate_def)

lemma edges_add_node [simp]: "edges (add_node G n a) = edges G"
  by (simp add: add_node_def)

lemma has_edge_add_node [simp]: "has_edge (add_node G n a) u v = has_edge G u v"
  by (simp add: has_edge_def)

lemma has_edge_iff: "has_edge G u v \<longleftrightarrow> (u, v) \<in> fst ` set (edges G)"
  by (simp add: has_edge_def map_of_eq_None_iff)

lemma edges_add_triplet:
  "edges (add_triplet G (Some s, p, Some ob)) =
     (if has_edge G s ob
      then map (\<lambda>(k, a). if k = (s, ob) then (k, bump_edge p a) else (k, a)) (edges G)
      else edges G @ [((s, ob), \<lparr>elabel = p, weight = 1, preds = {p}\<rparr>)])"
  by (simp add: add_triplet_def Let_def update_edge_def add_edge_def)

lemma add_triplet_skip: "\<not> not_skipped t \<Longrightarrow> add_triplet G t = G"
  by (auto simp: add_triplet_def not_skipped_def split: option.splits prod.splits)

lemma foldl_add_triplet_filter:
  "foldl add_triplet G (filter not_skipped ts) = foldl add_triplet G ts"
  by (induction ts arbitrary: G) (simp_all add: add_triplet_skip)

lemma pair_count_snoc:
  "pair_count (ts @ [(s, p, ob)]) u v =
     pair_count ts u v + (if s = Some u \<and> ob = Some v then 1 else 0)"
  by (simp add: pair_count_def)

lemma edges_build:
  "edges (build_graph_from_triplets f ts) =
     map (\<lambda>(k, a). (k, preds_to_list f a)) (edges (aggregate ts))"
  by (simp add: build_graph_from_triplets_def Let_def)

lemma nodes_build: "nodes (build_graph_from_triplets f ts) = nodes (aggregate ts)"
  by (simp add: build_graph_from_triplets_def Let_def)

subsection \<open>The two enumeration orders\<close>

lemma ascending_ok: "py_list_of_set ascending"
  by (simp add: py_list_of_set_def ascending_def)

lemma descending_ok: "py_list_of_set descending"
  by (simp add: py_list_of_set_def descending_def)

lemma ascending_example: "ascending {''works_at'', ''founded''} = [''founded'', ''works_at'']"
  unfolding ascending_def by code_simp

lemma descending_example: "descending {''works_at'', ''founded''} = [''works_at'', ''founded'']"
  unfolding descending_def by code_simp

subsection \<open>The weight of an edge counts the triplets of its pair\<close>

text \<open>
  \<open>counted ts G\<close> is the invariant of the loop after the triplets \<open>ts\<close>: every edge
  carries the number of triplets of its pair and a finite set of predicates, and a pair
  without an edge has had no triplet yet.
\<close>

lemma counted_step:
  assumes "counted ts G"
  shows "counted (ts @ [t]) (add_triplet G t)"
proof (cases "not_skipped t")
  case False
  then have "pair_count (ts @ [t]) u v = pair_count ts u v" for u v
    by (cases t) (auto simp: pair_count_snoc not_skipped_def)
  with assms False show ?thesis
    by (simp add: add_triplet_skip counted_def)
next
  case True
  then obtain s p ob where t: "t = (Some s, p, Some ob)"
    by (cases t) (auto simp: not_skipped_def)
  define G' where "G' = add_triplet G t"
  have old: "((u, v), a) \<in> set (edges G) \<Longrightarrow>
      weight a = int (pair_count ts u v) \<and> finite (preds a)" for u v a
    using assms unfolding counted_def by blast
  have none: "\<not> has_edge G u v \<Longrightarrow> pair_count ts u v = 0" for u v
    using assms unfolding counted_def by blast
  have cnt: "pair_count (ts @ [t]) u v =
      pair_count ts u v + (if (u, v) = (s, ob) then 1 else 0)" for u v
    by (auto simp: t pair_count_snoc)
  show ?thesis
  proof (cases "has_edge G s ob")
    case True
    have e: "edges G' =
        map (\<lambda>(k, a). if k = (s, ob) then (k, bump_edge p a) else (k, a)) (edges G)"
      using True by (simp add: G'_def t edges_add_triplet)
    have h: "has_edge G' u v = has_edge G u v" for u v
      unfolding has_edge_iff e by (force simp: image_iff split: if_splits)
    have w: "weight a = int (pair_count (ts @ [t]) u v) \<and> finite (preds a)"
      if "((u, v), a) \<in> set (edges G')" for u v a
    proof -
      from that obtain b where b: "((u, v), b) \<in> set (edges G)"
        and a: "a = (if (u, v) = (s, ob) then bump_edge p b else b)"
        unfolding e by (auto split: if_splits)
      from old [OF b] a show ?thesis
        by (simp add: cnt bump_edge_def)
    qed
    have "pair_count (ts @ [t]) u v = 0" if "\<not> has_edge G' u v" for u v
    proof -
      from that have n: "\<not> has_edge G u v" by (simp add: h)
      with True have "(u, v) \<noteq> (s, ob)" by auto
      with none [OF n] show ?thesis by (simp add: cnt)
    qed
    with w show ?thesis unfolding counted_def G'_def by blast
  next
    case False
    have e: "edges G' = edges G @ [((s, ob), \<lparr>elabel = p, weight = 1, preds = {p}\<rparr>)]"
      using False by (simp add: G'_def t edges_add_triplet)
    have h: "has_edge G' u v = (has_edge G u v \<or> (u, v) = (s, ob))" for u v
      unfolding has_edge_iff e by (force simp: image_iff)
    have z: "pair_count ts s ob = 0"
      using none [OF False] .
    have w: "weight a = int (pair_count (ts @ [t]) u v) \<and> finite (preds a)"
      if "((u, v), a) \<in> set (edges G')" for u v a
    proof (cases "((u, v), a) \<in> set (edges G)")
      case True
      then have "has_edge G u v" unfolding has_edge_iff by force
      with False have "(u, v) \<noteq> (s, ob)" by auto
      with old [OF True] show ?thesis by (simp add: cnt)
    next
      case False
      with that have "(u, v) = (s, ob)" and "a = \<lparr>elabel = p, weight = 1, preds = {p}\<rparr>"
        unfolding e by auto
      with z show ?thesis by (simp add: cnt)
    qed
    have "pair_count (ts @ [t]) u v = 0" if "\<not> has_edge G' u v" for u v
    proof -
      from that have n: "\<not> has_edge G u v" and "(u, v) \<noteq> (s, ob)" by (simp_all add: h)
      with none [OF n] show ?thesis by (simp add: cnt)
    qed
    with w show ?thesis unfolding counted_def G'_def by blast
  qed
qed

lemma counted_aggregate: "counted ts (aggregate ts)"
proof (induction ts rule: rev_induct)
  case Nil
  show ?case by (simp add: aggregate_Nil counted_def DiGraph_def pair_count_def)
next
  case (snoc t ts)
  then show ?case by (simp add: aggregate_snoc counted_step)
qed

lemma edge_facts_build:
  assumes "py_list_of_set f"
  shows "edge_facts (build_graph_from_triplets f ts) =
         map (\<lambda>(k, a). (k, elabel a, weight a, preds a)) (edges (aggregate ts))"
proof -
  have "finite (preds a)" if "(k, a) \<in> set (edges (aggregate ts))" for k a
    using counted_aggregate [of ts] that unfolding counted_def by (cases k) blast
  with assms have "set (f (preds a)) = preds a" if "(k, a) \<in> set (edges (aggregate ts))" for k a
    using that unfolding py_list_of_set_def by blast
  then show ?thesis
    by (auto simp: edge_facts_def edges_build preds_to_list_def)
qed

subsection \<open>Two concrete runs of the loop\<close>

lemma aggregate_example:
  "aggregate example_triplets =
     \<lparr>nodes = [(''A'', \<lparr>label = ''A'', type = ''entity''\<rparr>),
               (''B'', \<lparr>label = ''B'', type = ''entity''\<rparr>)],
      edges = [((''A'', ''B''),
                \<lparr>elabel = ''works_at'', weight = 3, preds = {''works_at'', ''founded''}\<rparr>)]\<rparr>"
  by (simp add: example_triplets_def aggregate_def add_triplet_def DiGraph_def has_node_def
      has_edge_def add_node_def add_edge_def update_edge_def bump_edge_def Let_def insert_commute)

lemma aggregate_empty_object:
  "aggregate [(Some ''A'', ''rel'', Some '''')] =
     \<lparr>nodes = [(''A'', \<lparr>label = ''A'', type = ''entity''\<rparr>),
               ('''', \<lparr>label = '''', type = ''entity''\<rparr>)],
      edges = [((''A'', ''''), \<lparr>elabel = ''rel'', weight = 1, preds = {''rel''}\<rparr>)]\<rparr>"
  by (simp add: aggregate_def add_triplet_def DiGraph_def has_node_def has_edge_def
      add_node_def add_edge_def Let_def)

subsection \<open>Claims about the aggregator\<close>

text \<open>
  C1, as the claim states it, fails: the loop skips a triplet only when its subject or
  object is \<open>None\<close>. The triplet \<open>("A", "rel", "")\<close> has an empty but present object; it
  creates the nodes \<open>"A"\<close> and \<open>""\<close> and one edge between them.
\<close>

theorem empty_object_not_skipped:
  "number_of_nodes (build_graph_from_triplets ascending [(Some ''A'', ''rel'', Some '''')]) = 2 \<and>
   number_of_edges (build_graph_from_triplets ascending [(Some ''A'', ''rel'', Some '''')]) = 1"
  by (simp add: number_of_nodes_def number_of_edges_def nodes_build edges_build
      aggregate_empty_object)

text \<open>
  C1, amended: a triplet whose subject or object is absent (\<open>None\<close>) is skipped and
  contributes nothing: the graph of a triplet list is the graph of its triplets that have
  both a subject and an object, and a single triplet without object or without subject
  gives the graph with 0 nodes and 0 edges. An empty string is a subject or object like
  any other: \<open>("A", "rel", "")\<close> alone gives 2 nodes and 1 edge, whatever the order in
  which sets are enumerated.
\<close>

theorem none_triplets_skipped:
  "build_graph_from_triplets to_list (filter not_skipped triplets) =
     build_graph_from_triplets to_list triplets \<and>
   build_graph_from_triplets to_list [(Some ''A'', ''rel'', None)] = \<lparr>nodes = [], edges = []\<rparr> \<and>
   build_graph_from_triplets to_list [(None, ''rel'', Some ''B'')] = \<lparr>nodes = [], edges = []\<rparr> \<and>
   number_of_nodes (build_graph_from_triplets to_list [(Some ''A'', ''rel'', Some '''')]) = 2 \<and>
   number_of_edges (build_graph_from_triplets to_list [(Some ''A'', ''rel'', Some '''')]) = 1"
proof -
  have "aggregate (filter not_skipped triplets) = aggregate triplets"
    by (simp add: aggregate_def foldl_add_triplet_filter)
  then have "build_graph_from_triplets to_list (filter not_skipped triplets) =
     build_graph_from_triplets to_list triplets"
    by (simp add: build_graph_from_triplets_def)
  moreover have "build_graph_from_triplets to_list [(Some ''A'', ''rel'', None)] =
      \<lparr>nodes = [], edges = []\<rparr>"
    by (simp add: build_graph_from_triplets_def aggregate_def add_triplet_def DiGraph_def)
  moreover have "build_graph_from_triplets to_list [(None, ''rel'', Some ''B'')] =
      \<lparr>nodes = [], edges = []\<rparr>"
    by (simp add: build_graph_from_triplets_def aggregate_def add_triplet_def DiGraph_def)
  moreover have
    "number_of_nodes (build_graph_from_triplets to_list [(Some ''A'', ''rel'', Some '''')]) = 2"
    by (simp add: number_of_nodes_def nodes_build aggregate_empty_object)
  moreover have
    "number_of_edges (build_graph_from_triplets to_list [(Some ''A'', ''rel'', Some '''')]) = 1"
    by (simp add: number_of_edges_def edges_build aggregate_empty_object)
  ultimately show ?thesis by blast
qed

text \<open>
  C2, as the claim states it, fails: \<open>preds\<close> is \<open>list\<close> of a set, in the set's iteration
  order. Two admissible iteration orders give different graphs on the triplets
  \<open>[("A","works_at","B"), ("A","works_at","B"), ("A","founded","B")]\<close>.
\<close>

theorem preds_order_differs:
  "py_list_of_set ascending \<and> py_list_of_set descending \<and>
   build_graph_from_triplets ascending example_triplets \<noteq>
   build_graph_from_triplets descending example_triplets"
  by (simp add: ascending_ok descending_ok build_graph_from_triplets_def aggregate_example
      preds_to_list_def ascending_example descending_example)

text \<open>
  C2, amended: for every triplet list, the nodes, the edges in order, and each edge's
  label, weight and set of predicates are the same whatever the iteration order of sets;
  each edge's \<open>preds\<close> is the enumeration of its predicate set in the iteration order of
  the run, so its order is fixed only where that iteration order is.
\<close>

theorem deterministic_up_to_preds_order:
  assumes "py_list_of_set f" and "py_list_of_set g"
  shows "nodes (build_graph_from_triplets f triplets) =
         nodes (build_graph_from_triplets g triplets) \<and>
         edge_facts (build_graph_from_triplets f triplets) =
         edge_facts (build_graph_from_triplets g triplets) \<and>
         map (\<lambda>(k, a). preds a) (edges (build_graph_from_triplets f triplets)) =
         map (\<lambda>(k, a). f (preds a)) (edges (aggregate triplets))"
  using assms by (auto simp: nodes_build edge_facts_build edges_build preds_to_list_def)

theorem deterministic_up_to_preds_order_witness:
  "py_list_of_set ascending \<and> py_list_of_set descending \<and>
   nodes (build_graph_from_triplets ascending example_triplets) =
   nodes (build_graph_from_triplets descending example_triplets) \<and>
   edge_facts (build_graph_from_triplets ascending example_triplets) =
   edge_facts (build_graph_from_triplets descending example_triplets) \<and>
   map (\<lambda>(k, a). preds a) (edges (build_graph_from_triplets ascending example_triplets)) =
     [[''founded'', ''works_at'']]"
  using deterministic_up_to_preds_order [OF ascending_ok descending_ok, of example_triplets]
  by (simp add: ascending_ok descending_ok aggregate_example ascending_example)

text \<open>
  C3: the triplets \<open>[("A","works_at","B"), ("A","works_at","B"), ("A","founded","B")]\<close>
  give the nodes A and B and exactly one edge, from A to B, with label \<open>works_at\<close>,
  weight 3 and a \<open>preds\<close> that lists exactly \<open>works_at\<close> and \<open>founded\<close>, once each.
\<close>

theorem example_aggregation:
  assumes "py_list_of_set to_list"
  shows "\<exists>ps. build_graph_from_triplets to_list example_triplets =
           \<lparr>nodes = [(''A'', \<lparr>label = ''A'', type = ''entity''\<rparr>),
                     (''B'', \<lparr>label = ''B'', type = ''entity''\<rparr>)],
            edges = [((''A'', ''B''), \<lparr>elabel = ''works_at'', weight = 3, preds = ps\<rparr>)]\<rparr> \<and>
         set ps = {''works_at'', ''founded''} \<and> distinct ps \<and> length ps = 2"
proof -
  let ?ps = "to_list {''works_at'', ''founded''}"
  from assms have s: "set ?ps = {''works_at'', ''founded''}" and d: "distinct ?ps"
    unfolding py_list_of_set_def by simp_all
  have "length ?ps = card (set ?ps)"
    using d by (simp add: distinct_card)
  also have "\<dots> = 2" unfolding s by simp
  finally have l: "length ?ps = 2" .
  have "build_graph_from_triplets to_list example_triplets =
           \<lparr>nodes = [(''A'', \<lparr>label = ''A'', type = ''entity''\<rparr>),
                     (''B'', \<lparr>label = ''B'', type = ''entity''\<rparr>)],
            edges = [((''A'', ''B''), \<lparr>elabel = ''works_at'', weight = 3, preds = ?ps\<rparr>)]\<rparr>"
    by (simp add: build_graph_from_triplets_def aggregate_example preds_to_list_def)
  with s d l show ?thesis by blast
qed

theorem example_aggregation_witness:
  "py_list_of_set descending \<and>
   build_graph_from_triplets descending example_triplets =
           \<lparr>nodes = [(''A'', \<lparr>label = ''A'', type = ''entity''\<rparr>),
                     (''B'', \<lparr>label = ''B'', type = ''entity''\<rparr>)],
            edges = [((''A'', ''B''), \<lparr>elabel = ''works_at'', weight = 3,
                       preds = [''works_at'', ''founded'']\<rparr>)]\<rparr>"
  using example_aggregation [OF descending_ok]
  by (simp add: descending_ok build_graph_from_triplets_def aggregate_example preds_to_list_def
      descending_example)

text \<open>
  C4: in the graph that \<open>build_graph_from_triplets\<close> returns, the weight of every edge is
  the number of input triplets with that subject and that object (the triplets with an
  absent subject or object, which the loop skips, are none of them), and the \<open>preds\<close> of
  every edge has no duplicate entries.
\<close>

theorem weight_counts_triplets:
  assumes "py_list_of_set to_list"
    and "((u, v), a) \<in> set (edges (build_graph_from_triplets to_list triplets))"
  shows "weight a = int (pair_count triplets u v) \<and> distinct (preds a)"
proof -
  from assms(2) obtain b where b: "((u, v), b) \<in> set (edges (aggregate triplets))"
    and a: "a = preds_to_list to_list b"
    unfolding edges_build by auto
  from counted_aggregate [of triplets] b
  have "weight b = int (pair_count triplets u v)" and "finite (preds b)"
    unfolding counted_def by blast+
  with assms(1) a show ?thesis
    by (simp add: preds_to_list_def py_list_of_set_def)
qed

theorem weight_counts_triplets_witness:
  "py_list_of_set ascending \<and>
   ((''A'', ''B''),
    \<lparr>elabel = ''works_at'', weight = 3, preds = ascending {''works_at'', ''founded''}\<rparr>)
      \<in> set (edges (build_graph_from_triplets ascending example_triplets)) \<and>
   (3::int) = int (pair_count example_triplets ''A'' ''B'') \<and>
   distinct (ascending {''works_at'', ''founded''})"
proof -
  have m: "((''A'', ''B''),
      \<lparr>elabel = ''works_at'', weight = 3, preds = ascending {''works_at'', ''founded''}\<rparr>)
      \<in> set (edges (build_graph_from_triplets ascending example_triplets))"
    by (simp add: edges_build aggregate_example preds_to_list_def)
  from weight_counts_triplets [OF ascending_ok m] ascending_ok m show ?thesis by simp
qed


section \<open>Properties of the deduplication\<close>

subsection \<open>The two loops compute the clustering of the specification\<close>

lemma scan_step_pair:
  "scan_step en thr i (c, V) j =
     (if j \<notin> V \<and> thr \<le> dot (en ! i) (en ! j) then (c @ [j], insert j V) else (c, V))"
  by (simp add: scan_step_def Let_def)

lemma scan_filter:
  "distinct js \<Longrightarrow>
   foldl (scan_step en thr i) (c, V) js =
     (c @ filter (\<lambda>j. j \<notin> V \<and> thr \<le> dot (en ! i) (en ! j)) js,
      V \<union> set (filter (\<lambda>j. j \<notin> V \<and> thr \<le> dot (en ! i) (en ! j)) js))"
proof (induction js arbitrary: c V)
  case Nil
  show ?case by simp
next
  case (Cons j js)
  have d: "distinct js" and nj: "j \<notin> set js" using Cons.prems by simp_all
  show ?case
  proof (cases "j \<notin> V \<and> thr \<le> dot (en ! i) (en ! j)")
    case True
    have f: "filter (\<lambda>x. x \<notin> insert j V \<and> thr \<le> dot (en ! i) (en ! x)) js =
             filter (\<lambda>x. x \<notin> V \<and> thr \<le> dot (en ! i) (en ! x)) js"
      using nj by (intro filter_cong) auto
    have "foldl (scan_step en thr i) (c, V) (j # js) =
          foldl (scan_step en thr i) (c @ [j], insert j V) js"
      using True by (simp add: scan_step_pair)
    also note Cons.IH [OF d]
    finally show ?thesis
      using True unfolding f by simp
  next
    case False
    have "foldl (scan_step en thr i) (c, V) (j # js) = foldl (scan_step en thr i) (c, V) js"
      by (simp only: foldl_Cons scan_step_pair False if_False)
    also note Cons.IH [OF d]
    finally show ?thesis
      using False by auto
  qed
qed

lemma cluster_step_old: "k \<in> V \<Longrightarrow> cluster_step en thr (V, cs) k = (V, cs)"
  by (simp add: cluster_step_def)

lemma cluster_step_new:
  assumes "k \<notin> V"
  shows "cluster_step en thr (V, cs) k =
     (insert k V \<union> set (filter (\<lambda>j. j \<notin> V \<and> thr \<le> dot (en ! k) (en ! j)) [Suc k ..< length en]),
      cs @ [k # filter (\<lambda>j. j \<notin> V \<and> thr \<le> dot (en ! k) (en ! j)) [Suc k ..< length en]])"
proof -
  have f: "filter (\<lambda>j. j \<notin> insert k V \<and> thr \<le> dot (en ! k) (en ! j)) [Suc k ..< length en] =
           filter (\<lambda>j. j \<notin> V \<and> thr \<le> dot (en ! k) (en ! j)) [Suc k ..< length en]"
    by (intro filter_cong) auto
  have s: "foldl (scan_step en thr k) ([k], insert k V) [Suc k ..< length en] =
     ([k] @ filter (\<lambda>j. j \<notin> V \<and> thr \<le> dot (en ! k) (en ! j)) [Suc k ..< length en],
      insert k V \<union> set (filter (\<lambda>j. j \<notin> V \<and> thr \<le> dot (en ! k) (en ! j)) [Suc k ..< length en]))"
    using scan_filter [of "[Suc k ..< length en]" en thr k "[k]" "insert k V"]
    unfolding f by simp
  have "cluster_step en thr (V, cs) k =
      (case foldl (scan_step en thr k) ([k], insert k V) [Suc k ..< length en] of
         (cluster, visited') \<Rightarrow> (visited', cs @ [cluster]))"
    using assms by (simp add: cluster_step_def)
  then show ?thesis
    unfolding s by simp
qed

lemma clusters_from:
  "snd (foldl (cluster_step en thr) (V, cs) [k ..< length en]) =
     cs @ spec_clusters (\<lambda>i j. thr \<le> dot (en ! i) (en ! j)) (filter (\<lambda>j. j \<notin> V) [k ..< length en])"
proof (induction "length en - k" arbitrary: k V cs)
  case 0
  then show ?case by simp
next
  case (Suc d)
  then have lt: "k < length en" and d: "d = length en - Suc k" by simp_all
  let ?sim = "\<lambda>i j. thr \<le> dot (en ! i) (en ! j)"
  let ?xs = "[Suc k ..< length en]"
  have u: "[k ..< length en] = k # ?xs" using lt by (simp add: upt_conv_Cons)
  show ?case
  proof (cases "k \<in> V")
    case True
    have "snd (foldl (cluster_step en thr) (V, cs) [k ..< length en]) =
          snd (foldl (cluster_step en thr) (V, cs) ?xs)"
      using True by (simp add: u cluster_step_old)
    also note Suc.hyps(1) [OF d]
    finally show ?thesis using True by (simp add: u)
  next
    case False
    let ?c = "filter (\<lambda>j. j \<notin> V \<and> ?sim k j) ?xs"
    let ?V' = "insert k V \<union> set ?c"
    have r: "filter (\<lambda>j. j \<notin> ?V') ?xs = filter (\<lambda>j. \<not> ?sim k j) (filter (\<lambda>j. j \<notin> V) ?xs)"
      unfolding filter_filter by (rule filter_cong) auto
    have m: "filter (?sim k) (filter (\<lambda>j. j \<notin> V) ?xs) = ?c"
      unfolding filter_filter by (rule filter_cong) auto
    have "snd (foldl (cluster_step en thr) (V, cs) [k ..< length en]) =
          snd (foldl (cluster_step en thr) (?V', cs @ [k # ?c]) ?xs)"
      unfolding u using cluster_step_new [OF False, of en thr cs] by simp
    also have "\<dots> = (cs @ [k # ?c]) @ spec_clusters ?sim (filter (\<lambda>j. j \<notin> ?V') ?xs)"
      by (rule Suc.hyps(1) [OF d])
    also have "\<dots> = cs @ spec_clusters ?sim (filter (\<lambda>j. j \<notin> V) [k ..< length en])"
      unfolding u r using False by (simp add: m)
    finally show ?thesis .
  qed
qed

lemma greedy_is_spec:
  "greedy_clusters en thr =
     spec_clusters (\<lambda>i j. thr \<le> dot (en ! i) (en ! j)) [0 ..< length en]"
  unfolding greedy_clusters_def using clusters_from [of en thr "{}" "[]" 0] by simp


lemma set_concat_spec_clusters: "set (concat (spec_clusters sim xs)) = set xs"
  by (induction sim xs rule: spec_clusters.induct) auto

lemma distinct_concat_spec_clusters:
  "distinct xs \<Longrightarrow> distinct (concat (spec_clusters sim xs))"
proof (induction sim xs rule: spec_clusters.induct)
  case (1 sim)
  show ?case by simp
next
  case (2 sim i rest)
  let ?others = "spec_clusters sim (filter (\<lambda>j. \<not> sim i j) rest)"
  have o: "set (concat ?others) = {j \<in> set rest. \<not> sim i j}"
    unfolding set_concat_spec_clusters by simp
  have "distinct (concat ?others)"
    using 2 by simp
  moreover have "distinct (i # filter (sim i) rest)"
    using "2.prems" by simp
  moreover have "set (i # filter (sim i) rest) \<inter> set (concat ?others) = {}"
    unfolding o using "2.prems" by auto
  ultimately show ?case
    by (simp only: spec_clusters.simps concat.simps distinct_append)
qed

lemma spec_clusters_nonempty: "[] \<notin> set (spec_clusters sim xs)"
  by (induction sim xs rule: spec_clusters.induct) auto

lemma length_spec_clusters: "length (spec_clusters sim xs) \<le> length xs"
proof (induction sim xs rule: spec_clusters.induct)
  case (1 sim)
  show ?case by simp
next
  case (2 sim i rest)
  have "length (spec_clusters sim (filter (\<lambda>j. \<not> sim i j) rest)) \<le>
        length (filter (\<lambda>j. \<not> sim i j) rest)"
    by (rule 2)
  also have "\<dots> \<le> length rest" by simp
  finally show ?case by simp
qed

lemma spec_clusters_Nil_iff: "spec_clusters sim xs = [] \<longleftrightarrow> xs = []"
  by (cases xs) simp_all

lemma spec_clusters_increasing:
  "sorted_wrt (<) xs \<Longrightarrow> c \<in> set (spec_clusters sim xs) \<Longrightarrow> sorted_wrt (<) c"
proof (induction sim xs rule: spec_clusters.induct)
  case (1 sim)
  then show ?case by simp
next
  case (2 sim i rest)
  from "2.prems"(1) have s: "sorted_wrt (<) rest" and h: "\<forall>j\<in>set rest. i < j" by simp_all
  from "2.prems"(2) consider "c = i # filter (sim i) rest"
    | "c \<in> set (spec_clusters sim (filter (\<lambda>j. \<not> sim i j) rest))" by auto
  then show ?case
  proof cases
    case 1
    with s h show ?thesis by (simp add: sorted_wrt_filter)
  next
    case 2
    with "2.IH" s show ?thesis by (simp add: sorted_wrt_filter)
  qed
qed

lemma spec_clusters_cong:
  "(\<And>i j. i \<in> set xs \<Longrightarrow> j \<in> set xs \<Longrightarrow> sim i j = sim' i j) \<Longrightarrow>
   spec_clusters sim xs = spec_clusters sim' xs"
proof (induction sim xs rule: spec_clusters.induct)
  case (1 sim)
  show ?case by simp
next
  case (2 sim i rest)
  have a: "filter (sim i) rest = filter (sim' i) rest"
    using "2.prems" by (intro filter_cong) auto
  have b: "filter (\<lambda>j. \<not> sim i j) rest = filter (\<lambda>j. \<not> sim' i j) rest"
    using "2.prems" by (intro filter_cong) auto
  have "spec_clusters sim (filter (\<lambda>j. \<not> sim i j) rest) =
        spec_clusters sim' (filter (\<lambda>j. \<not> sim i j) rest)"
    using "2.prems" by (intro "2.IH") auto
  then show ?case by (simp add: a b)
qed

lemma spec_clusters_singletons:
  "sorted_wrt (\<lambda>i j. \<not> sim i j) xs \<Longrightarrow> spec_clusters sim xs = map (\<lambda>i. [i]) xs"
proof (induction xs)
  case Nil
  show ?case by simp
next
  case (Cons i rest)
  then have h: "\<forall>j\<in>set rest. \<not> sim i j" and s: "sorted_wrt (\<lambda>i j. \<not> sim i j) rest"
    by simp_all
  from h have a: "filter (sim i) rest = []" and b: "filter (\<lambda>j. \<not> sim i j) rest = rest"
    by (simp_all add: filter_empty_conv filter_id_conv)
  show ?case by (simp add: a b Cons.IH [OF s])
qed

lemma length_l2_normalize: "length (l2_normalize embs) = length embs"
  by (simp add: l2_normalize_def divide_rows_def clamp_zero_norms_def row_norms_def)

lemma l2_normalize_map: "l2_normalize embs = map normalize_row embs"
  by (simp add: l2_normalize_def divide_rows_def clamp_zero_norms_def row_norms_def
      normalize_row_def zip_map2 map_zip_map2 list_eq_iff_nth_eq)

lemma nth_l2_normalize: "i < length embs \<Longrightarrow> l2_normalize embs ! i = normalize_row (embs ! i)"
  by (simp add: l2_normalize_map)

lemma clusters_of_embeddings:
  "greedy_clusters (l2_normalize embs) thr =
     spec_clusters (\<lambda>i j. thr \<le> cosine (embs ! i) (embs ! j)) [0 ..< length embs]"
  unfolding greedy_is_spec length_l2_normalize
  by (rule spec_clusters_cong) (simp add: cosine_def nth_l2_normalize)

lemma max_key_len_first_longest:
  "\<exists>p < length (x # xs).
     foldl (\<lambda>best y. if length best < length y then y else best) (x::string) xs = (x # xs) ! p \<and>
     (\<forall>q < length (x # xs). length ((x # xs) ! q) \<le> length ((x # xs) ! p)) \<and>
     (\<forall>q < p. length ((x # xs) ! q) < length ((x # xs) ! p))"
proof (induction xs rule: rev_induct)
  case Nil
  show ?case by simp
next
  case (snoc y ys)
  let ?f = "\<lambda>best y. if length best < length (y::string) then y else best"
  let ?zs = "x # ys"
  from snoc obtain p where p: "p < length ?zs" and e: "foldl ?f x ys = ?zs ! p"
    and mx: "\<forall>q < length ?zs. length (?zs ! q) \<le> length (?zs ! p)"
    and fs: "\<forall>q < p. length (?zs ! q) < length (?zs ! p)" by blast
  have n: "(x # ys @ [y]) ! q = (if q < length ?zs then ?zs ! q else y)"
    if "q \<le> length ?zs" for q
    using that by (cases q) (auto simp: nth_append)
  show ?case
  proof (cases "length (?zs ! p) < length y")
    case True
    let ?p' = "length ?zs"
    have "foldl ?f x (ys @ [y]) = (x # ys @ [y]) ! ?p'"
      using True e n [of ?p'] by simp
    moreover have "\<forall>q < length (x # ys @ [y]). length ((x # ys @ [y]) ! q) \<le> length ((x # ys @ [y]) ! ?p')"
    proof (intro allI impI)
      fix q assume "q < length (x # ys @ [y])"
      then have "q \<le> length ?zs" by simp
      then show "length ((x # ys @ [y]) ! q) \<le> length ((x # ys @ [y]) ! ?p')"
        using n [of q] n [of ?p'] mx True by (cases "q < length ?zs") (auto simp: less_imp_le dest!: spec [of _ q])
    qed
    moreover have "\<forall>q < ?p'. length ((x # ys @ [y]) ! q) < length ((x # ys @ [y]) ! ?p')"
    proof (intro allI impI)
      fix q assume q: "q < ?p'"
      then have "length (?zs ! q) \<le> length (?zs ! p)" using mx by blast
      with True q show "length ((x # ys @ [y]) ! q) < length ((x # ys @ [y]) ! ?p')"
        using n [of q] n [of ?p'] by simp
    qed
    ultimately show ?thesis by (intro exI [of _ ?p']) simp
  next
    case False
    have "foldl ?f x (ys @ [y]) = (x # ys @ [y]) ! p"
      using False e n [of p] p by simp
    moreover have "\<forall>q < length (x # ys @ [y]). length ((x # ys @ [y]) ! q) \<le> length ((x # ys @ [y]) ! p)"
    proof (intro allI impI)
      fix q assume "q < length (x # ys @ [y])"
      then have "q \<le> length ?zs" by simp
      then show "length ((x # ys @ [y]) ! q) \<le> length ((x # ys @ [y]) ! p)"
        using n [of q] n [of p] p mx False by (cases "q < length ?zs") auto
    qed
    moreover have "\<forall>q < p. length ((x # ys @ [y]) ! q) < length ((x # ys @ [y]) ! p)"
    proof (intro allI impI)
      fix q assume q: "q < p"
      with fs have "length (?zs ! q) < length (?zs ! p)" by blast
      with q p show "length ((x # ys @ [y]) ! q) < length ((x # ys @ [y]) ! p)"
        using n [of q] n [of p] by simp
    qed
    ultimately show ?thesis using p by (intro exI [of _ p]) simp
  qed
qed

lemma those_map_Some:
  "(\<And>x. x \<in> set xs \<Longrightarrow> f x = Some (g x)) \<Longrightarrow> those (map f xs) = Some (map g xs)"
  by (induction xs) simp_all


lemma representative_first_longest:
  assumes ne: "c \<noteq> []" and inc: "sorted_wrt (<) c" and rng: "\<forall>i\<in>set c. i < length texts"
  shows "\<exists>m\<in>set c. representative texts c = Some (texts ! m) \<and>
           (\<forall>i\<in>set c. length (texts ! i) \<le> length (texts ! m)) \<and>
           (\<forall>i\<in>set c. length (texts ! i) = length (texts ! m) \<longrightarrow> m \<le> i)"
proof -
  from ne obtain x xs where c: "c = x # xs" by (cases c) auto
  let ?f = "\<lambda>i. texts ! i"
  have members: "those (map (py_index texts) c) = Some (map ?f c)"
    using rng by (intro those_map_Some) (simp add: py_index_def)
  from max_key_len_first_longest [of "?f x" "map ?f xs"]
  obtain p where p: "p < length c"
    and e: "max_key_len (map ?f c) = Some (map ?f c ! p)"
    and mx: "\<forall>q < length c. length (map ?f c ! q) \<le> length (map ?f c ! p)"
    and fs: "\<forall>q < p. length (map ?f c ! q) < length (map ?f c ! p)"
    unfolding c by auto
  let ?m = "c ! p"
  have r: "representative texts c = Some (texts ! ?m)"
    using e p by (simp add: representative_def members)
  have a: "length (texts ! i) \<le> length (texts ! ?m)" if "i \<in> set c" for i
  proof -
    from that obtain q where "q < length c" and "i = c ! q" by (auto simp: in_set_conv_nth)
    with mx p show ?thesis by auto
  qed
  have b: "?m \<le> i" if "i \<in> set c" and l: "length (texts ! i) = length (texts ! ?m)" for i
  proof -
    from that obtain q where q: "q < length c" and i: "i = c ! q" by (auto simp: in_set_conv_nth)
    have "\<not> q < p"
    proof
      assume qp: "q < p"
      with fs have "length (map ?f c ! q) < length (map ?f c ! p)" by blast
      with qp p q l i show False by simp
    qed
    then have "p = q \<or> p < q" by auto
    then show ?thesis
    proof
      assume "p = q" with i show ?thesis by simp
    next
      assume "p < q"
      with inc q have "c ! p < c ! q" by (simp add: sorted_wrt_nth_less)
      with i show ?thesis by simp
    qed
  qed
  from p have "?m \<in> set c" by simp
  with r a b show ?thesis by blast
qed

lemma representatives_Some:
  assumes "\<forall>c\<in>set cs. \<exists>r. representative texts c = Some r"
  shows "\<exists>reps. representatives texts cs = Some reps \<and> length reps = length cs \<and>
           (\<forall>k < length cs. representative texts (cs ! k) = Some (reps ! k))"
proof -
  let ?g = "\<lambda>c. the (representative texts c)"
  have "those (map (representative texts) cs) = Some (map ?g cs)"
    using assms by (intro those_map_Some) auto
  moreover have "representative texts (cs ! k) = Some (map ?g cs ! k)" if "k < length cs" for k
    using assms that by (auto simp: all_set_conv_all_nth)
  ultimately show ?thesis
    unfolding representatives_def by (intro exI [of _ "map ?g cs"]) simp
qed

lemma deduplicate_entities_nonempty:
  "encode entity_texts = Some embs \<Longrightarrow> entity_texts \<noteq> [] \<Longrightarrow>
   deduplicate_entities encode entity_texts threshold calls =
     (representatives entity_texts (greedy_clusters (l2_normalize embs) threshold),
      calls @ [entity_texts])"
  by (simp add: deduplicate_entities_def Let_def)

lemma cluster_facts:
  assumes "c \<in> set (greedy_clusters (l2_normalize embs) thr)"
  shows "c \<noteq> [] \<and> sorted_wrt (<) c \<and> (\<forall>i\<in>set c. i < length embs)"
proof -
  let ?sim = "\<lambda>i j. thr \<le> cosine (embs ! i) (embs ! j)"
  let ?xs = "[0 ..< length embs]"
  from assms have c: "c \<in> set (spec_clusters ?sim ?xs)"
    by (simp add: clusters_of_embeddings)
  have "c \<noteq> []" using c spec_clusters_nonempty [of ?sim ?xs] by auto
  moreover have "sorted_wrt (<) c"
    using c by (rule spec_clusters_increasing [rotated]) (simp add: sorted_wrt_upt)
  moreover have "set c \<subseteq> set (concat (spec_clusters ?sim ?xs))"
    using c by auto
  then have "\<forall>i\<in>set c. i < length embs"
    unfolding set_concat_spec_clusters by auto
  ultimately show ?thesis by blast
qed

lemma upt3: "[0 ..< 3] = [0, 1, 2]"
  by code_simp

lemma upt2: "[0 ..< 2] = [0, 1]"
  by code_simp

lemma l2_norm_unit1: "l2_norm [1, 0] = 1"
  by (simp add: l2_norm_def)

lemma l2_norm_unit2: "l2_norm [0, 1] = 1"
  by (simp add: l2_norm_def)

lemma l2_norm_unit3: "l2_norm [3 / 5, 4 / 5] = 1"
  by (simp add: l2_norm_def)

lemma cosines_abc:
  "cosine [1, 0] [3 / 5, 4 / 5] = 3 / 5"
  "cosine [1, 0] [0, 1] = 0"
  "cosine [3 / 5, 4 / 5] [0, 1] = 4 / 5"
  by (simp_all add: cosine_def normalize_row_def dot_def l2_norm_unit1 l2_norm_unit2 l2_norm_unit3)

lemma clusters_abc:
  "greedy_clusters (l2_normalize (map embed_abc [''a'', ''bb'', ''c''])) (1 / 2) = [[0, 1], [2]]"
  by (simp add: clusters_of_embeddings upt3 embed_abc_def cosines_abc)

lemma clusters_bc:
  "greedy_clusters (l2_normalize (map embed_abc [''bb'', ''c''])) (1 / 2) = [[0, 1]]"
  by (simp add: clusters_of_embeddings upt2 embed_abc_def cosines_abc)

lemma dedup_abc:
  "deduplicate_entities (batch_encoder embed_abc) [''a'', ''bb'', ''c''] (1 / 2) calls =
     (Some [''bb'', ''c''], calls @ [[''a'', ''bb'', ''c'']])"
proof -
  have "representatives [''a'', ''bb'', ''c''] [[0, 1], [2]] = Some [''bb'', ''c'']"
    by (simp add: representatives_def representative_def py_index_def)
  then show ?thesis
    using deduplicate_entities_nonempty [of "batch_encoder embed_abc" "[''a'', ''bb'', ''c'']"
        "map embed_abc [''a'', ''bb'', ''c'']" "1 / 2" calls]
    unfolding clusters_abc by (simp add: batch_encoder_def)
qed

lemma dedup_bc:
  "deduplicate_entities (batch_encoder embed_abc) [''bb'', ''c''] (1 / 2) calls =
     (Some [''bb''], calls @ [[''bb'', ''c'']])"
proof -
  have "representatives [''bb'', ''c''] [[0, 1]] = Some [''bb'']"
    by (simp add: representatives_def representative_def py_index_def)
  then show ?thesis
    using deduplicate_entities_nonempty [of "batch_encoder embed_abc" "[''bb'', ''c'']"
        "map embed_abc [''bb'', ''c'']" "1 / 2" calls]
    unfolding clusters_bc by (simp add: batch_encoder_def)
qed

lemma spec_clusters_members:
  "c \<in> set (spec_clusters sim xs) \<Longrightarrow> j \<in> set (tl c) \<Longrightarrow> sim (hd c) j"
  by (induction sim xs rule: spec_clusters.induct) auto

lemma spec_clusters_hd:
  assumes "c \<in> set (spec_clusters sim xs)"
  shows "hd c \<in> set xs"
proof -
  have "c \<noteq> []" using assms spec_clusters_nonempty [of sim xs] by auto
  then have "hd c \<in> set c" by simp
  also have "set c \<subseteq> set (concat (spec_clusters sim xs))" using assms by auto
  finally show ?thesis unfolding set_concat_spec_clusters .
qed

lemma spec_clusters_seeds:
  "sorted_wrt (<) xs \<Longrightarrow> sorted_wrt (<) (map hd (spec_clusters sim xs))"
proof (induction sim xs rule: spec_clusters.induct)
  case (1 sim)
  show ?case by simp
next
  case (2 sim i rest)
  from "2.prems" have s: "sorted_wrt (<) rest" and h: "\<forall>j\<in>set rest. i < j" by simp_all
  let ?others = "spec_clusters sim (filter (\<lambda>j. \<not> sim i j) rest)"
  have "sorted_wrt (<) (map hd ?others)"
    using s by (intro "2.IH") (simp add: sorted_wrt_filter)
  moreover have "i < hd c" if "c \<in> set ?others" for c
    using spec_clusters_hd [OF that] h by simp
  ultimately show ?case by simp
qed

lemma dedup_reps:
  assumes enc: "encode texts = Some embs" and len: "length embs = length texts"
    and ne: "texts \<noteq> []"
  shows "\<exists>reps. deduplicate_entities encode texts thr calls = (Some reps, calls @ [texts]) \<and>
           length reps = length (greedy_clusters (l2_normalize embs) thr) \<and>
           (\<forall>k < length reps. \<exists>m.
              first_longest texts (greedy_clusters (l2_normalize embs) thr ! k) m \<and>
              reps ! k = texts ! m)"
proof -
  let ?cs = "greedy_clusters (l2_normalize embs) thr"
  have f: "\<exists>m. first_longest texts c m \<and> representative texts c = Some (texts ! m)"
    if "c \<in> set ?cs" for c
    using representative_first_longest [of c texts] cluster_facts [OF that] len
    unfolding first_longest_def by auto
  then have "\<forall>c\<in>set ?cs. \<exists>r. representative texts c = Some r" by blast
  from representatives_Some [OF this] obtain reps
    where r: "representatives texts ?cs = Some reps" and l: "length reps = length ?cs"
      and k: "\<forall>k < length ?cs. representative texts (?cs ! k) = Some (reps ! k)" by blast
  have "\<exists>m. first_longest texts (?cs ! k) m \<and> reps ! k = texts ! m" if "k < length reps" for k
  proof -
    from that l have kl: "k < length ?cs" by simp
    then have "?cs ! k \<in> set ?cs" by simp
    from f [OF this] obtain m where "first_longest texts (?cs ! k) m"
      and "representative texts (?cs ! k) = Some (texts ! m)" by blast
    with k kl show ?thesis by auto
  qed
  with r l show ?thesis
    using deduplicate_entities_nonempty [of encode texts embs thr calls, OF enc ne] by simp
qed

lemma clusters_partition:
  fixes embs :: "vec list" and thr :: real
  defines "cs \<equiv> greedy_clusters (l2_normalize embs) thr"
  shows "distinct (concat cs)" and "set (concat cs) = {0 ..< length embs}"
    and "[] \<notin> set cs" and "length cs \<le> length embs" and "embs \<noteq> [] \<Longrightarrow> cs \<noteq> []"
    and "i < length embs \<Longrightarrow> \<exists>!k. k < length cs \<and> i \<in> set (cs ! k)"
proof -
  let ?sim = "\<lambda>i j. thr \<le> cosine (embs ! i) (embs ! j)"
  have cs: "cs = spec_clusters ?sim [0 ..< length embs]"
    unfolding cs_def by (rule clusters_of_embeddings)
  show d: "distinct (concat cs)"
    unfolding cs by (rule distinct_concat_spec_clusters) simp
  show s: "set (concat cs) = {0 ..< length embs}"
    unfolding cs set_concat_spec_clusters by simp
  show n: "[] \<notin> set cs"
    unfolding cs by (rule spec_clusters_nonempty)
  show "length cs \<le> length embs"
    unfolding cs using length_spec_clusters [of ?sim "[0 ..< length embs]"] by simp
  show "cs \<noteq> []" if "embs \<noteq> []"
    unfolding cs using that by (simp add: spec_clusters_Nil_iff)
  show "\<exists>!k. k < length cs \<and> i \<in> set (cs ! k)" if "i < length embs"
  proof -
    from that s have "i \<in> set (concat cs)" by simp
    then obtain c where "c \<in> set cs" and ic: "i \<in> set c" by auto
    then obtain k where k: "k < length cs" and c: "c = cs ! k"
      by (auto simp: in_set_conv_nth)
    have "k' = k" if k': "k' < length cs" and i': "i \<in> set (cs ! k')" for k'
    proof (rule ccontr)
      assume neq: "k' \<noteq> k"
      from d n have dc: "distinct cs"
        by (simp add: distinct_concat_iff)
      with neq k k' have "cs ! k' \<noteq> cs ! k"
        by (simp add: nth_eq_iff_index_eq)
      with d k k' have "set (cs ! k') \<inter> set (cs ! k) = {}"
        unfolding distinct_concat_iff by (meson nth_mem)
      with i' ic c show False by auto
    qed
    with k ic c show ?thesis by blast
  qed
qed

subsection \<open>Claims about the representatives and the clusters\<close>

lemma upt4: "[0 ..< 4] = [0, 1, 2, 3]"
  by code_simp

lemma cosine_same: "cosine [0, 1] [0, 1] = 1"
  by (simp add: cosine_def normalize_row_def dot_def l2_norm_unit2)

lemma embed_abc_mentions: "map embed_abc example_mentions = [[0, 1], [0, 1], [0, 1], [0, 1]]"
  by (simp add: example_mentions_def embed_abc_def)

lemma clusters_mentions:
  "greedy_clusters (l2_normalize (map embed_abc example_mentions)) (1 / 2) = [[0, 1, 2, 3]]"
  unfolding embed_abc_mentions by (simp add: clusters_of_embeddings upt4 cosine_same)

lemma dedup_mentions:
  "deduplicate_entities (batch_encoder embed_abc) example_mentions (1 / 2) calls =
     (Some [''Robert''], calls @ [example_mentions])"
proof -
  have "representatives example_mentions [[0, 1, 2, 3]] = Some [''Robert'']"
    by (simp add: representatives_def representative_def py_index_def example_mentions_def)
  moreover have "example_mentions \<noteq> []" by (simp add: example_mentions_def)
  ultimately show ?thesis
    using deduplicate_entities_nonempty [of "batch_encoder embed_abc" example_mentions
        "map embed_abc example_mentions" "1 / 2" calls]
    unfolding clusters_mentions by (simp add: batch_encoder_def)
qed

text \<open>
  C5: when the encoder returns one row per mention, \<open>deduplicate_entities\<close> returns one
  representative per cluster, and the representative of a cluster is the mention at an
  index \<open>m\<close> of the cluster such that no member is longer (by character count) and
  every member of the same length has an index \<open>\<ge> m\<close>: the longest member, and among the
  longest the first in input order.
\<close>

theorem representative_is_first_longest:
  assumes "encode entity_texts = Some embs"
    and "length embs = length entity_texts"
    and "entity_texts \<noteq> []"
  shows "\<exists>reps. fst (deduplicate_entities encode entity_texts threshold calls) = Some reps \<and>
           length reps = length (greedy_clusters (l2_normalize embs) threshold) \<and>
           (\<forall>k < length reps. \<exists>m.
              first_longest entity_texts (greedy_clusters (l2_normalize embs) threshold ! k) m \<and>
              reps ! k = entity_texts ! m)"
  using dedup_reps [of encode entity_texts embs threshold calls] assms by auto

theorem representative_is_first_longest_witness:
  "batch_encoder embed_abc example_mentions = Some (map embed_abc example_mentions) \<and>
   length (map embed_abc example_mentions) = length example_mentions \<and>
   example_mentions \<noteq> [] \<and>
   greedy_clusters (l2_normalize (map embed_abc example_mentions)) (1 / 2) = [[0, 1, 2, 3]] \<and>
   fst (deduplicate_entities (batch_encoder embed_abc) example_mentions (1 / 2) []) =
     Some [''Robert''] \<and>
   first_longest example_mentions [0, 1, 2, 3] 1 \<and>
   (\<exists>reps. fst (deduplicate_entities (batch_encoder embed_abc) example_mentions (1 / 2) []) =
        Some reps \<and> length reps = 1)"
proof -
  have a: "batch_encoder embed_abc example_mentions = Some (map embed_abc example_mentions)"
    by (simp add: batch_encoder_def)
  have b: "length (map embed_abc example_mentions) = length example_mentions" by simp
  have c: "example_mentions \<noteq> []" by (simp add: example_mentions_def)
  have f: "first_longest example_mentions [0, 1, 2, 3] 1"
    by (simp add: first_longest_def example_mentions_def)
  from representative_is_first_longest [of "batch_encoder embed_abc" example_mentions
      "map embed_abc example_mentions" "1 / 2" "[]", OF a b c]
  have "\<exists>reps. fst (deduplicate_entities (batch_encoder embed_abc) example_mentions (1 / 2) []) =
        Some reps \<and> length reps = 1"
    unfolding clusters_mentions by auto
  with a b c f show ?thesis
    by (simp add: clusters_mentions dedup_mentions)
qed

text \<open>
  C10: for a non-empty mention list (and an encoder that returns one row per mention),
  every index \<open>0..n-1\<close> lies in exactly one cluster, the clusters hold no other index
  and none twice; the call returns a list of representatives that are input strings,
  non-empty and at most as long as the input, after exactly one call of the encoder. For
  the empty list the result is the empty list and the log of encoder calls is unchanged,
  whatever the encoder.
\<close>

theorem clusters_partition_indices:
  assumes "encode entity_texts = Some embs"
    and "length embs = length entity_texts"
    and "entity_texts \<noteq> []"
  shows "(\<forall>i < length entity_texts.
            \<exists>!k. k < length (greedy_clusters (l2_normalize embs) threshold) \<and>
                 i \<in> set (greedy_clusters (l2_normalize embs) threshold ! k)) \<and>
         distinct (concat (greedy_clusters (l2_normalize embs) threshold)) \<and>
         set (concat (greedy_clusters (l2_normalize embs) threshold)) =
           {0 ..< length entity_texts} \<and>
         (\<exists>reps. deduplicate_entities encode entity_texts threshold calls =
                    (Some reps, calls @ [entity_texts]) \<and>
                 set reps \<subseteq> set entity_texts \<and> reps \<noteq> [] \<and>
                 length reps \<le> length entity_texts) \<and>
         deduplicate_entities any_encoder [] threshold calls = (Some [], calls)"
proof -
  let ?cs = "greedy_clusters (l2_normalize embs) threshold"
  have ne: "embs \<noteq> []" using assms(2,3) by auto
  have p: "\<forall>i < length entity_texts. \<exists>!k. k < length ?cs \<and> i \<in> set (?cs ! k)"
    using clusters_partition(6) [of _ embs threshold] assms(2) by simp
  have d: "distinct (concat ?cs)" by (rule clusters_partition(1))
  have s: "set (concat ?cs) = {0 ..< length entity_texts}"
    using clusters_partition(2) [of embs threshold] assms(2) by simp
  from dedup_reps [of encode entity_texts embs threshold calls] assms
  obtain reps where r: "deduplicate_entities encode entity_texts threshold calls =
        (Some reps, calls @ [entity_texts])"
    and l: "length reps = length ?cs"
    and m: "\<forall>k < length reps. \<exists>m. first_longest entity_texts (?cs ! k) m \<and>
              reps ! k = entity_texts ! m" by blast
  have "set reps \<subseteq> set entity_texts"
  proof
    fix x assume "x \<in> set reps"
    then obtain k where k: "k < length reps" and x: "x = reps ! k"
      by (auto simp: in_set_conv_nth)
    with m obtain i where i: "i \<in> set (?cs ! k)" and xi: "x = entity_texts ! i"
      unfolding first_longest_def by auto
    from k l have "?cs ! k \<in> set ?cs" by simp
    with i have "i \<in> set (concat ?cs)" by auto
    with s have "i < length entity_texts" by simp
    with xi show "x \<in> set entity_texts" by simp
  qed
  moreover have "reps \<noteq> []"
    using clusters_partition(5) [OF ne, of threshold] l by auto
  moreover have "length reps \<le> length entity_texts"
    using clusters_partition(4) [of embs threshold] l assms(2) by simp
  moreover have "deduplicate_entities any_encoder [] threshold calls = (Some [], calls)"
    by (simp add: deduplicate_entities_def)
  ultimately show ?thesis using p d s r by blast
qed

theorem clusters_partition_indices_witness:
  "batch_encoder embed_abc [''a'', ''bb'', ''c''] = Some (map embed_abc [''a'', ''bb'', ''c'']) \<and>
   length (map embed_abc [''a'', ''bb'', ''c'']) = length [''a'', ''bb'', ''c''] \<and>
   [''a'', ''bb'', ''c''] \<noteq> ([] :: string list) \<and>
   greedy_clusters (l2_normalize (map embed_abc [''a'', ''bb'', ''c''])) (1 / 2) = [[0, 1], [2]] \<and>
   distinct (concat [[0, 1], [2 :: nat]]) \<and>
   set (concat [[0, 1], [2 :: nat]]) = {0 ..< length [''a'', ''bb'', ''c'']} \<and>
   deduplicate_entities (batch_encoder embed_abc) [''a'', ''bb'', ''c''] (1 / 2) [] =
     (Some [''bb'', ''c''], [[''a'', ''bb'', ''c'']]) \<and>
   deduplicate_entities (\<lambda>texts. None) [] (1 / 2) [] = (Some [], [])"
proof -
  have a: "batch_encoder embed_abc [''a'', ''bb'', ''c''] = Some (map embed_abc [''a'', ''bb'', ''c''])"
    by (simp add: batch_encoder_def)
  have b: "length (map embed_abc [''a'', ''bb'', ''c'']) = length [''a'', ''bb'', ''c'']" by simp
  have c: "[''a'', ''bb'', ''c''] \<noteq> ([] :: string list)" by simp
  from clusters_partition_indices [of "batch_encoder embed_abc" "[''a'', ''bb'', ''c'']"
      "map embed_abc [''a'', ''bb'', ''c'']" "1 / 2" "[]" "\<lambda>texts. None", OF a b c]
  have h: "distinct (concat [[0, 1], [2 :: nat]]) \<and>
        set (concat [[0, 1], [2 :: nat]]) = {0 ..< length [''a'', ''bb'', ''c'']} \<and>
        deduplicate_entities (\<lambda>texts. None) [] (1 / 2) [] = (Some [], [])"
    unfolding clusters_abc by blast
  have e: "deduplicate_entities (batch_encoder embed_abc) [''a'', ''bb'', ''c''] (1 / 2) [] =
     (Some [''bb'', ''c''], [[''a'', ''bb'', ''c'']])"
    using dedup_abc [of "[]"] by simp
  from a b c clusters_abc h e show ?thesis by blast
qed

lemma cluster_members_similar:
  assumes "c \<in> set (greedy_clusters (l2_normalize embs) thr)" and "j \<in> set (tl c)"
  shows "hd c < j \<and> thr \<le> cosine (embs ! hd c) (embs ! j)"
proof -
  let ?sim = "\<lambda>i j. thr \<le> cosine (embs ! i) (embs ! j)"
  from assms(1) have c: "c \<in> set (spec_clusters ?sim [0 ..< length embs])"
    by (simp add: clusters_of_embeddings)
  from cluster_facts [OF assms(1)] have ne: "c \<noteq> []" and s: "sorted_wrt (<) c" by simp_all
  from ne have "c = hd c # tl c" by simp
  with s have "sorted_wrt (<) (hd c # tl c)" by simp
  with assms(2) have "hd c < j" by simp
  with spec_clusters_members [OF c assms(2)] show ?thesis by simp
qed

text \<open>
  C6: when the encoder returns the rows \<open>embs\<close>, the clusters that the two loops build are
  those of \<open>spec_clusters\<close> on the indices \<open>0..n-1\<close> in input order, with "similar" meaning
  that the cosine of the two rows is at least the threshold: the first unassigned index
  seeds a cluster, and exactly the later unassigned indices similar to the seed join it.
  The result of \<open>deduplicate_entities\<close> lists the representatives of these clusters in
  that order, the seeds are increasing (first-seen order), and every further member of a
  cluster is later than the seed and similar to the seed. Similarity to the seed is not
  transitive: with the rows of \<open>embed_abc\<close>, a is similar to bb and bb to c at threshold
  1/2, and yet a and c lie in different clusters.
\<close>

theorem greedy_seed_only_clustering:
  assumes "encode entity_texts = Some embs" and "entity_texts \<noteq> []"
  shows "greedy_clusters (l2_normalize embs) threshold =
           spec_clusters (\<lambda>i j. threshold \<le> cosine (embs ! i) (embs ! j)) [0 ..< length embs] \<and>
         fst (deduplicate_entities encode entity_texts threshold calls) =
           representatives entity_texts
             (spec_clusters (\<lambda>i j. threshold \<le> cosine (embs ! i) (embs ! j))
                [0 ..< length embs]) \<and>
         sorted_wrt (<) (map hd (greedy_clusters (l2_normalize embs) threshold)) \<and>
         (\<forall>c \<in> set (greedy_clusters (l2_normalize embs) threshold). \<forall>j \<in> set (tl c).
            hd c < j \<and> threshold \<le> cosine (embs ! hd c) (embs ! j)) \<and>
         (1 / 2 \<le> cosine (embed_abc ''a'') (embed_abc ''bb'') \<and>
          1 / 2 \<le> cosine (embed_abc ''bb'') (embed_abc ''c'') \<and>
          greedy_clusters (l2_normalize (map embed_abc [''a'', ''bb'', ''c''])) (1 / 2) =
            [[0, 1], [2]])"
proof -
  let ?sim = "\<lambda>i j. threshold \<le> cosine (embs ! i) (embs ! j)"
  have a: "greedy_clusters (l2_normalize embs) threshold = spec_clusters ?sim [0 ..< length embs]"
    by (rule clusters_of_embeddings)
  have b: "fst (deduplicate_entities encode entity_texts threshold calls) =
           representatives entity_texts (spec_clusters ?sim [0 ..< length embs])"
    using deduplicate_entities_nonempty [of encode entity_texts embs threshold calls] assms
    by (simp add: a)
  have c: "sorted_wrt (<) (map hd (greedy_clusters (l2_normalize embs) threshold))"
    unfolding a by (rule spec_clusters_seeds) (simp add: sorted_wrt_upt)
  have d: "\<forall>c \<in> set (greedy_clusters (l2_normalize embs) threshold). \<forall>j \<in> set (tl c).
            hd c < j \<and> threshold \<le> cosine (embs ! hd c) (embs ! j)"
    using cluster_members_similar by blast
  have e: "1 / 2 \<le> cosine (embed_abc ''a'') (embed_abc ''bb'')"
    "1 / 2 \<le> cosine (embed_abc ''bb'') (embed_abc ''c'')"
    by (simp_all add: embed_abc_def cosines_abc)
  from a b c d e clusters_abc show ?thesis by blast
qed

theorem greedy_seed_only_clustering_witness:
  "batch_encoder embed_abc [''a'', ''bb'', ''c''] = Some (map embed_abc [''a'', ''bb'', ''c'']) \<and>
   [''a'', ''bb'', ''c''] \<noteq> ([] :: string list) \<and>
   spec_clusters (\<lambda>i j. 1 / 2 \<le> cosine (map embed_abc [''a'', ''bb'', ''c''] ! i)
                                    (map embed_abc [''a'', ''bb'', ''c''] ! j))
     [0 ..< length (map embed_abc [''a'', ''bb'', ''c''])] = [[0, 1], [2]] \<and>
   fst (deduplicate_entities (batch_encoder embed_abc) [''a'', ''bb'', ''c''] (1 / 2) []) =
     Some [''bb'', ''c''] \<and>
   cosine (embed_abc ''a'') (embed_abc ''c'') < 1 / 2"
proof -
  have a: "batch_encoder embed_abc [''a'', ''bb'', ''c''] = Some (map embed_abc [''a'', ''bb'', ''c''])"
    by (simp add: batch_encoder_def)
  have c: "[''a'', ''bb'', ''c''] \<noteq> ([] :: string list)" by simp
  note g = greedy_seed_only_clustering [of "batch_encoder embed_abc" "[''a'', ''bb'', ''c'']"
      "map embed_abc [''a'', ''bb'', ''c'']" "1 / 2" "[]", OF a c, THEN conjunct1]
  have "spec_clusters (\<lambda>i j. 1 / 2 \<le> cosine (map embed_abc [''a'', ''bb'', ''c''] ! i)
                                    (map embed_abc [''a'', ''bb'', ''c''] ! j))
     [0 ..< length (map embed_abc [''a'', ''bb'', ''c''])] = [[0, 1], [2]]"
    unfolding g [symmetric] by (rule clusters_abc)
  moreover have "fst (deduplicate_entities (batch_encoder embed_abc) [''a'', ''bb'', ''c''] (1 / 2) []) =
     Some [''bb'', ''c'']"
    by (simp add: dedup_abc)
  moreover have "cosine (embed_abc ''a'') (embed_abc ''c'') < 1 / 2"
    by (simp add: embed_abc_def cosines_abc)
  ultimately show ?thesis using a c by blast
qed

subsection \<open>A second pass over the representatives\<close>

lemma dedup_output_subset:
  assumes enc: "encode texts = Some embs" and len: "length embs = length texts"
    and ne: "texts \<noteq> []"
  shows "\<exists>reps. fst (deduplicate_entities encode texts thr calls) = Some reps \<and>
           set reps \<subseteq> set texts"
proof -
  let ?cs = "greedy_clusters (l2_normalize embs) thr"
  from dedup_reps [of encode texts embs thr calls] assms
  obtain reps where r: "deduplicate_entities encode texts thr calls = (Some reps, calls @ [texts])"
    and l: "length reps = length ?cs"
    and m: "\<forall>k < length reps. \<exists>m. first_longest texts (?cs ! k) m \<and> reps ! k = texts ! m"
    by blast
  have "set reps \<subseteq> set texts"
  proof
    fix x assume "x \<in> set reps"
    then obtain k where k: "k < length reps" and x: "x = reps ! k"
      by (auto simp: in_set_conv_nth)
    with m obtain i where i: "i \<in> set (?cs ! k)" and xi: "x = texts ! i"
      unfolding first_longest_def by auto
    from k l have "?cs ! k \<in> set ?cs" by simp
    from cluster_facts [OF this] i len have "i < length texts" by simp
    with xi show "x \<in> set texts" by simp
  qed
  with r show ?thesis by simp
qed

lemma representatives_singletons:
  "representatives texts (map (\<lambda>i. [i]) [0 ..< length texts]) = Some texts"
proof -
  have "representative texts [i] = Some (texts ! i)" if "i < length texts" for i
    using that by (simp add: representative_def py_index_def)
  then have "those (map (\<lambda>i. representative texts [i]) [0 ..< length texts]) =
             Some (map (\<lambda>i. texts ! i) [0 ..< length texts])"
    by (intro those_map_Some) simp
  then show ?thesis
    by (simp add: representatives_def comp_def map_nth)
qed

lemma dedup_dissimilar:
  assumes "\<forall>i j. i < j \<and> j < length texts \<longrightarrow>
             cosine (embedding (texts ! i)) (embedding (texts ! j)) < thr"
  shows "fst (deduplicate_entities (batch_encoder embedding) texts thr calls) = Some texts"
proof (cases "texts = []")
  case True
  then show ?thesis by (simp add: deduplicate_entities_def)
next
  case False
  let ?embs = "map embedding texts"
  let ?sim = "\<lambda>i j. thr \<le> cosine (?embs ! i) (?embs ! j)"
  have "sorted_wrt (\<lambda>i j. \<not> ?sim i j) [0 ..< length ?embs]"
    using assms by (simp add: sorted_wrt_iff_nth_less not_le)
  then have "spec_clusters ?sim [0 ..< length ?embs] = map (\<lambda>i. [i]) [0 ..< length ?embs]"
    by (rule spec_clusters_singletons)
  then have "greedy_clusters (l2_normalize ?embs) thr = map (\<lambda>i. [i]) [0 ..< length texts]"
    by (simp add: clusters_of_embeddings)
  then show ?thesis
    using deduplicate_entities_nonempty [of "batch_encoder embedding" texts ?embs thr calls] False
    by (simp add: batch_encoder_def representatives_singletons)
qed

lemma clusters_abc_strict:
  "greedy_clusters (l2_normalize (map embed_abc [''a'', ''bb'', ''c''])) (9 / 10) = [[0], [1], [2]]"
  by (simp add: clusters_of_embeddings upt3 embed_abc_def cosines_abc)

lemma dedup_abc_strict:
  "deduplicate_entities (batch_encoder embed_abc) [''a'', ''bb'', ''c''] (9 / 10) calls =
     (Some [''a'', ''bb'', ''c''], calls @ [[''a'', ''bb'', ''c'']])"
proof -
  have "representatives [''a'', ''bb'', ''c''] [[0], [1], [2]] = Some [''a'', ''bb'', ''c'']"
    by (simp add: representatives_def representative_def py_index_def)
  then show ?thesis
    using deduplicate_entities_nonempty [of "batch_encoder embed_abc" "[''a'', ''bb'', ''c'']"
        "map embed_abc [''a'', ''bb'', ''c'']" "9 / 10" calls]
    unfolding clusters_abc_strict by (simp add: batch_encoder_def)
qed

text \<open>
  C7, as the claim states it, fails: a representative need not be the seed of its cluster,
  so two representatives can be similar to each other. With the rows of \<open>embed_abc\<close> and
  threshold 1/2, the mentions a, bb, c give the representatives bb, c (a and bb form a
  cluster, bb is the longer); a second pass puts bb and c into one cluster and returns
  bb alone.
\<close>

theorem second_pass_merges_representatives:
  "fst (deduplicate_entities (batch_encoder embed_abc) [''a'', ''bb'', ''c''] (1 / 2) []) =
     Some [''bb'', ''c''] \<and>
   fst (deduplicate_entities (batch_encoder embed_abc) [''bb'', ''c''] (1 / 2)
          [[''a'', ''bb'', ''c'']]) = Some [''bb''] \<and>
   set [''bb''] \<noteq> set [''bb'', ''c'']"
  by (simp add: dedup_abc dedup_bc)

text \<open>
  C7, amended: with a deterministic encoder, a second pass at the same threshold over the
  output of a first pass returns a list of strings of that output (a subset of it), and it
  returns that output unchanged when no earlier representative and later representative
  of it have a cosine at or above the threshold.
\<close>

theorem second_pass_subset:
  assumes "fst (deduplicate_entities (batch_encoder embedding) entity_texts threshold calls) =
             Some reps"
  shows "\<exists>reps2. fst (deduplicate_entities (batch_encoder embedding) reps threshold calls2) =
                    Some reps2 \<and>
           set reps2 \<subseteq> set reps \<and>
           ((\<forall>i j. i < j \<and> j < length reps \<longrightarrow>
               cosine (embedding (reps ! i)) (embedding (reps ! j)) < threshold) \<longrightarrow>
            reps2 = reps)"
proof (cases "reps = []")
  case True
  then show ?thesis by (simp add: deduplicate_entities_def)
next
  case False
  have "batch_encoder embedding reps = Some (map embedding reps)"
    by (simp add: batch_encoder_def)
  from dedup_output_subset [of "batch_encoder embedding" reps "map embedding reps" threshold calls2,
      OF this _ False]
  obtain reps2 where r: "fst (deduplicate_entities (batch_encoder embedding) reps threshold calls2) =
      Some reps2" and s: "set reps2 \<subseteq> set reps" by auto
  have "reps2 = reps"
    if "\<forall>i j. i < j \<and> j < length reps \<longrightarrow>
          cosine (embedding (reps ! i)) (embedding (reps ! j)) < threshold"
    using dedup_dissimilar [OF that, of calls2] r by simp
  with r s show ?thesis by blast
qed

theorem second_pass_subset_witness:
  "fst (deduplicate_entities (batch_encoder embed_abc) [''a'', ''bb'', ''c''] (9 / 10) []) =
     Some [''a'', ''bb'', ''c''] \<and>
   cosine (embed_abc ''a'') (embed_abc ''bb'') < 9 / 10 \<and>
   cosine (embed_abc ''a'') (embed_abc ''c'') < 9 / 10 \<and>
   cosine (embed_abc ''bb'') (embed_abc ''c'') < 9 / 10 \<and>
   fst (deduplicate_entities (batch_encoder embed_abc) [''a'', ''bb'', ''c''] (9 / 10)
          [[''a'', ''bb'', ''c'']]) = Some [''a'', ''bb'', ''c'']"
proof -
  let ?T = "[''a'', ''bb'', ''c'']"
  have h: "fst (deduplicate_entities (batch_encoder embed_abc) ?T (9 / 10) []) = Some ?T"
    by (simp add: dedup_abc_strict)
  have c: "cosine (embed_abc ''a'') (embed_abc ''bb'') < 9 / 10"
    "cosine (embed_abc ''a'') (embed_abc ''c'') < 9 / 10"
    "cosine (embed_abc ''bb'') (embed_abc ''c'') < 9 / 10"
    by (simp_all add: embed_abc_def cosines_abc)
  have p: "\<forall>i j. i < j \<and> j < length ?T \<longrightarrow>
      cosine (embed_abc (?T ! i)) (embed_abc (?T ! j)) < 9 / 10"
  proof (intro allI impI)
    fix i j :: nat assume "i < j \<and> j < length ?T"
    then have "(i = 0 \<and> j = 1) \<or> (i = 0 \<and> j = 2) \<or> (i = 1 \<and> j = 2)" by auto
    with c show "cosine (embed_abc (?T ! i)) (embed_abc (?T ! j)) < 9 / 10" by auto
  qed
  from second_pass_subset [of embed_abc ?T "9 / 10" "[]" ?T "[?T]", OF h] p
  have "fst (deduplicate_entities (batch_encoder embed_abc) ?T (9 / 10) [?T]) = Some ?T"
    by auto
  with h c show ?thesis by blast
qed

subsection \<open>Normalisation of the embeddings\<close>

lemma l2_norm_zeros: "l2_norm (replicate d 0) = 0"
  by (simp add: l2_norm_def sum_list_replicate)

lemma l2_norm_3_4: "l2_norm [3, 4] = 5"
proof -
  have "l2_norm [3, 4] = sqrt (5 ^ 2)" by (simp add: l2_norm_def)
  then show ?thesis by simp
qed

lemma l2_norm_0_0: "l2_norm [0, 0] = 0"
  by (simp add: l2_norm_def)

lemma cosines_zero:
  "cosine [0, 0] [3, 4] = 0"
  "cosine [3, 4] [3, 4] = 1"
  by (simp_all add: cosine_def normalize_row_def dot_def l2_norm_3_4 l2_norm_0_0)

lemma l2_normalize_zero_example:
  "l2_normalize (map embed_zero [''zero'', ''x'', ''yy'']) = [[0, 0], [3 / 5, 4 / 5], [3 / 5, 4 / 5]]"
  by (simp add: l2_normalize_map normalize_row_def embed_zero_def l2_norm_3_4 l2_norm_0_0)

lemma clusters_zero_example:
  "greedy_clusters (l2_normalize (map embed_zero [''zero'', ''x'', ''yy''])) (1 / 2) = [[0], [1, 2]]"
  by (simp add: clusters_of_embeddings upt3 embed_zero_def cosines_zero)

lemma dedup_zero_example:
  "deduplicate_entities (batch_encoder embed_zero) [''zero'', ''x'', ''yy''] (1 / 2) calls =
     (Some [''zero'', ''yy''], calls @ [[''zero'', ''x'', ''yy'']])"
proof -
  have "representatives [''zero'', ''x'', ''yy''] [[0], [1, 2]] = Some [''zero'', ''yy'']"
    by (simp add: representatives_def representative_def py_index_def)
  then show ?thesis
    using deduplicate_entities_nonempty [of "batch_encoder embed_zero" "[''zero'', ''x'', ''yy'']"
        "map embed_zero [''zero'', ''x'', ''yy'']" "1 / 2" calls]
    unfolding clusters_zero_example by (simp add: batch_encoder_def)
qed

lemma dot_zeros: "dot (replicate d 0) w = 0"
proof (induction d arbitrary: w)
  case 0
  show ?case by (simp add: dot_def)
next
  case (Suc d)
  show ?case
  proof (cases w)
    case Nil
    then show ?thesis by (simp add: dot_def)
  next
    case (Cons y ys)
    with Suc [of ys] show ?thesis by (simp add: dot_def)
  qed
qed

lemma cosine_zeros: "cosine (replicate d 0) v = 0"
  by (simp add: cosine_def normalize_row_def l2_norm_zeros dot_zeros)

text \<open>
  C9: when the encoder returns the rows \<open>embs\<close>, \<open>deduplicate_entities\<close> returns the
  representatives of the clusters formed by comparing dot products of rows of
  \<open>l2_normalize embs\<close> and of nothing else; these rows are the rows of \<open>embs\<close> divided by
  the clamped norms, the clamped norms contain no zero, whatever the norms were, so every
  row is divided by its own norm or by \<open>1e-9\<close> and never by zero. An all-zero row has the
  clamped norm \<open>1e-9\<close> and stays all-zero; with an encoder that returns only all-zero
  rows and a positive threshold the call returns every mention.
\<close>

theorem deduplicate_divides_by_clamped_norms:
  assumes "encode entity_texts = Some embs" and "entity_texts \<noteq> []"
  shows "fst (deduplicate_entities encode entity_texts threshold calls) =
           representatives entity_texts
             (spec_clusters
                (\<lambda>i j. threshold \<le> dot (l2_normalize embs ! i) (l2_normalize embs ! j))
                [0 ..< length embs]) \<and>
         l2_normalize embs = divide_rows embs (clamp_zero_norms (row_norms embs)) \<and>
         0 \<notin> set (clamp_zero_norms (row_norms embs)) \<and>
         0 \<notin> set (clamp_zero_norms norms) \<and>
         l2_normalize embs =
           map (\<lambda>v. map (\<lambda>x. x / (if l2_norm v = 0 then 1 / 10 ^ 9 else l2_norm v)) v) embs \<and>
         (if l2_norm v = 0 then 1 / 10 ^ 9 else l2_norm v) \<noteq> 0 \<and>
         clamp_zero_norms (row_norms [replicate d 0]) = [1 / 10 ^ 9] \<and>
         l2_normalize [replicate d 0] = [replicate d 0] \<and>
         (0 < threshold \<longrightarrow>
            fst (deduplicate_entities (batch_encoder (\<lambda>s. replicate d 0)) entity_texts
                   threshold calls) = Some entity_texts)"
proof -
  have g: "greedy_clusters (l2_normalize embs) threshold =
     spec_clusters (\<lambda>i j. threshold \<le> dot (l2_normalize embs ! i) (l2_normalize embs ! j))
       [0 ..< length embs]"
    using greedy_is_spec [of "l2_normalize embs" threshold] by (simp add: length_l2_normalize)
  have a: "fst (deduplicate_entities encode entity_texts threshold calls) =
           representatives entity_texts
             (spec_clusters
                (\<lambda>i j. threshold \<le> dot (l2_normalize embs ! i) (l2_normalize embs ! j))
                [0 ..< length embs])"
    using deduplicate_entities_nonempty [of encode entity_texts embs threshold calls] assms
    by (simp add: g)
  have b: "l2_normalize embs = divide_rows embs (clamp_zero_norms (row_norms embs))"
    by (simp add: l2_normalize_def)
  have c: "0 \<notin> set (clamp_zero_norms ns)" for ns
    by (auto simp: clamp_zero_norms_def)
  have e: "l2_normalize embs =
     map (\<lambda>v. map (\<lambda>x. x / (if l2_norm v = 0 then 1 / 10 ^ 9 else l2_norm v)) v) embs"
    using l2_normalize_map [of embs] by (simp add: normalize_row_def [abs_def])
  have f: "(if l2_norm v = 0 then 1 / 10 ^ 9 else l2_norm v) \<noteq> 0" by simp
  have h: "clamp_zero_norms (row_norms [replicate d 0]) = [1 / 10 ^ 9]"
    by (simp add: clamp_zero_norms_def row_norms_def l2_norm_zeros)
  have i: "l2_normalize [replicate d 0] = [replicate d 0]"
    by (simp add: l2_normalize_map normalize_row_def l2_norm_zeros)
  have j: "fst (deduplicate_entities (batch_encoder (\<lambda>s. replicate d 0)) entity_texts
                   threshold calls) = Some entity_texts" if "0 < threshold"
    using that by (intro dedup_dissimilar) (simp add: cosine_zeros)
  from a b c [of "row_norms embs"] c [of norms] e f h i j show ?thesis by blast
qed

theorem deduplicate_divides_by_clamped_norms_witness:
  "batch_encoder embed_zero [''zero'', ''x'', ''yy''] =
     Some (map embed_zero [''zero'', ''x'', ''yy'']) \<and>
   [''zero'', ''x'', ''yy''] \<noteq> ([] :: string list) \<and>
   row_norms (map embed_zero [''zero'', ''x'', ''yy'']) = [0, 5, 5] \<and>
   clamp_zero_norms (row_norms (map embed_zero [''zero'', ''x'', ''yy''])) = [1 / 10 ^ 9, 5, 5] \<and>
   divide_rows (map embed_zero [''zero'', ''x'', ''yy''])
     (clamp_zero_norms (row_norms (map embed_zero [''zero'', ''x'', ''yy'']))) =
     [[0, 0], [3 / 5, 4 / 5], [3 / 5, 4 / 5]] \<and>
   fst (deduplicate_entities (batch_encoder embed_zero) [''zero'', ''x'', ''yy''] (1 / 2) []) =
     Some [''zero'', ''yy''] \<and>
   representatives [''zero'', ''x'', ''yy'']
     (spec_clusters
        (\<lambda>i j. 1 / 2 \<le> dot (l2_normalize (map embed_zero [''zero'', ''x'', ''yy'']) ! i)
                           (l2_normalize (map embed_zero [''zero'', ''x'', ''yy'']) ! j))
        [0 ..< length (map embed_zero [''zero'', ''x'', ''yy''])]) = Some [''zero'', ''yy'']"
proof -
  let ?T = "[''zero'', ''x'', ''yy'']"
  have a: "batch_encoder embed_zero ?T = Some (map embed_zero ?T)"
    by (simp add: batch_encoder_def)
  have c: "?T \<noteq> ([] :: string list)" by simp
  note t = deduplicate_divides_by_clamped_norms [of "batch_encoder embed_zero" ?T
      "map embed_zero ?T" "1 / 2" "[]" "[]" "[]" 0, OF a c]
  have r: "row_norms (map embed_zero ?T) = [0, 5, 5]"
    by (simp add: row_norms_def embed_zero_def l2_norm_3_4 l2_norm_0_0)
  have k: "clamp_zero_norms (row_norms (map embed_zero ?T)) = [1 / 10 ^ 9, 5, 5]"
    unfolding r by (simp add: clamp_zero_norms_def)
  have d: "divide_rows (map embed_zero ?T) (clamp_zero_norms (row_norms (map embed_zero ?T))) =
     [[0, 0], [3 / 5, 4 / 5], [3 / 5, 4 / 5]]"
    using t [THEN conjunct2, THEN conjunct1] l2_normalize_zero_example by simp
  have f: "fst (deduplicate_entities (batch_encoder embed_zero) ?T (1 / 2) []) = Some [''zero'', ''yy'']"
    by (simp add: dedup_zero_example)
  have g: "representatives ?T
     (spec_clusters
        (\<lambda>i j. 1 / 2 \<le> dot (l2_normalize (map embed_zero ?T) ! i)
                           (l2_normalize (map embed_zero ?T) ! j))
        [0 ..< length (map embed_zero ?T)]) = Some [''zero'', ''yy'']"
    using t [THEN conjunct1] f by simp
  from a c r k d f g show ?thesis by blast
qed


section \<open>Properties of the normalisation of triplets\<close>

lemma first_overlap_find:
  "first_overlap reps e = (case find (overlaps e) reps of None \<Rightarrow> e | Some r \<Rightarrow> r)"
  by (induction reps) simp_all

lemma first_overlap_nth:
  "i < length reps \<Longrightarrow> overlaps e (reps ! i) \<Longrightarrow> (\<forall>j<i. \<not> overlaps e (reps ! j)) \<Longrightarrow>
   first_overlap reps e = reps ! i"
proof (induction reps arbitrary: i)
  case Nil
  then show ?case by simp
next
  case (Cons r rs)
  show ?case
  proof (cases i)
    case 0
    with Cons.prems show ?thesis by simp
  next
    case (Suc k)
    with Cons.prems have n: "\<not> overlaps e r" by auto
    from Cons.prems Suc have "k < length rs" and "overlaps e (rs ! k)"
      and "\<forall>j<k. \<not> overlaps e (rs ! j)" by auto
    from Cons.IH [OF this] n Suc show ?thesis by simp
  qed
qed

lemma first_overlap_none: "(\<forall>r\<in>set reps. \<not> overlaps e r) \<Longrightarrow> first_overlap reps e = e"
  by (induction reps) simp_all

lemma normalize_entity_nonempty: "e \<noteq> [] \<Longrightarrow> normalize_entity reps e = spec_normalize reps e"
  by (simp add: normalize_entity_def spec_normalize_def first_overlap_find)

lemma normalize_entity_truthy:
  "truthy s \<Longrightarrow> map_option (normalize_entity reps) s = map_option (spec_normalize reps) s"
  by (cases s) (simp_all add: truthy_def normalize_entity_nonempty)

text \<open>
  C8: \<open>normalize\<close> is only applied to the subjects and objects that pass \<open>if s and o\<close>,
  which are non-empty strings. On a non-empty mention it returns the first
  representative, in list order, that contains the mention or is contained in it with
  letter case ignored (\<open>overlaps\<close>), even when later representatives match too, and the
  mention itself when no representative matches; so the triplets that the call site
  builds are the filtered triplets with that policy applied to subject and object.
\<close>

theorem normalize_first_match:
  assumes "e \<noteq> []"
  shows "normalize_entity reps e = spec_normalize reps e \<and>
         (i < length reps \<and> overlaps e (reps ! i) \<and> (\<forall>j<i. \<not> overlaps e (reps ! j))
            \<longrightarrow> normalize_entity reps e = reps ! i) \<and>
         ((\<forall>r\<in>set reps. \<not> overlaps e r) \<longrightarrow> normalize_entity reps e = e) \<and>
         overlaps e r = (sublist (lower e) (lower r) \<or> sublist (lower r) (lower e)) \<and>
         normalized_triplets reps triplets =
           map (\<lambda>(s, p, ob). (map_option (spec_normalize reps) s, p,
                              map_option (spec_normalize reps) ob))
             (filter (\<lambda>(s, p, ob). truthy s \<and> truthy ob) triplets)"
proof -
  have "normalize_entity reps e = spec_normalize reps e"
    using assms by (rule normalize_entity_nonempty)
  moreover have "normalize_entity reps e = reps ! i"
    if "i < length reps \<and> overlaps e (reps ! i) \<and> (\<forall>j<i. \<not> overlaps e (reps ! j))"
    using that assms first_overlap_nth [of i reps e] by (simp add: normalize_entity_def)
  moreover have "normalize_entity reps e = e" if "\<forall>r\<in>set reps. \<not> overlaps e r"
    using that assms first_overlap_none [of reps e] by (simp add: normalize_entity_def)
  moreover have "overlaps e r = (sublist (lower e) (lower r) \<or> sublist (lower r) (lower e))"
    by (simp add: overlaps_def)
  moreover have "normalized_triplets reps triplets =
           map (\<lambda>(s, p, ob). (map_option (spec_normalize reps) s, p,
                              map_option (spec_normalize reps) ob))
             (filter (\<lambda>(s, p, ob). truthy s \<and> truthy ob) triplets)"
    unfolding normalized_triplets_def
    by (rule map_cong [OF refl]) (auto simp: normalize_entity_truthy)
  ultimately show ?thesis by blast
qed

lemma overlaps_examples:
  "\<not> overlaps ''bob jones'' ''Alice''"
  "overlaps ''bob jones'' ''BOB''"
  "overlaps ''bob jones'' ''Bob Jones Jr''"
  "\<not> overlaps ''Carol'' ''Alice''"
  "\<not> overlaps ''Carol'' ''BOB''"
  "\<not> overlaps ''Carol'' ''Bob Jones Jr''"
  by code_simp+

lemma lower_examples:
  "lower ''Bob Jones JR'' = ''bob jones jr''"
  "lower [CHR 0xC9, CHR 0xD7, CHR 0xDE, CHR 0xDF] = [CHR 0xE9, CHR 0xD7, CHR 0xFE, CHR 0xDF]"
  by code_simp+

theorem normalize_first_match_witness:
  "''bob jones'' \<noteq> [] \<and> (1::nat) < length [''Alice'', ''BOB'', ''Bob Jones Jr''] \<and>
   overlaps ''bob jones'' ([''Alice'', ''BOB'', ''Bob Jones Jr''] ! 1) \<and>
   \<not> overlaps ''bob jones'' ''Alice'' \<and>
   overlaps ''bob jones'' ''Bob Jones Jr'' \<and>
   normalize_entity [''Alice'', ''BOB'', ''Bob Jones Jr''] ''bob jones'' = ''BOB'' \<and>
   ''Carol'' \<noteq> [] \<and>
   normalize_entity [''Alice'', ''BOB'', ''Bob Jones Jr''] ''Carol'' = ''Carol'' \<and>
   normalized_triplets [''Alice'', ''BOB'', ''Bob Jones Jr'']
     [(Some ''bob jones'', ''met'', Some ''Carol''), (Some '''', ''met'', Some ''Carol''),
      (Some ''Carol'', ''met'', None)] =
     [(Some ''BOB'', ''met'', Some ''Carol'')]"
proof -
  let ?reps = "[''Alice'', ''BOB'', ''Bob Jones Jr'']"
  have p: "\<forall>j<1. \<not> overlaps ''bob jones'' (?reps ! j)"
    by (simp add: overlaps_examples)
  have q: "overlaps ''bob jones'' (?reps ! 1)"
    by (simp add: overlaps_examples)
  have n: "\<forall>r\<in>set ?reps. \<not> overlaps ''Carol'' r"
    by (simp add: overlaps_examples)
  have ne: "''bob jones'' \<noteq> []" "''Carol'' \<noteq> []" by simp_all
  from normalize_first_match [of "''bob jones''" ?reps 1 "''BOB''" "[]", OF ne(1),
      THEN conjunct2, THEN conjunct1] p q
  have a: "normalize_entity ?reps ''bob jones'' = ''BOB''" by simp
  from normalize_first_match [of "''Carol''" ?reps 0 "''BOB''" "[]", OF ne(2),
      THEN conjunct2, THEN conjunct2, THEN conjunct1] n
  have b: "normalize_entity ?reps ''Carol'' = ''Carol''" by simp
  have c: "normalized_triplets ?reps
     [(Some ''bob jones'', ''met'', Some ''Carol''), (Some '''', ''met'', Some ''Carol''),
      (Some ''Carol'', ''met'', None)] =
     [(Some ''BOB'', ''met'', Some ''Carol'')]"
    by (simp add: normalized_triplets_def truthy_def a b)
  from a b c q show ?thesis by (simp add: overlaps_examples)
qed

end
